theory Spec2Isabelle
  imports Complex_Main "HOL-Library.Log_Nat" "HOL-Library.Sublist"
begin

section \<open>Errors\<close>

text \<open>
  Every exception the service can raise is a value.  A pydantic \<open>ValidationError\<close>
  carries one entry per failing field: the field's name and the constraint that failed.
\<close>

datatype field_error =
    MinLength nat
  | MaxLength nat
  | GreaterEqual int
  | LessEqual int
  | ValidatorError string

datatype py_error =
    ValueError string
  | ZeroDivisionError
  | OverflowError
  | FileNotFoundError
  | JSONDecodeError
  | ValidationError "(string \<times> field_error) list"

section \<open>Record model (\<open>app/models.py\<close>)\<close>

record KOL =
  kol_id :: string
  name :: string
  affiliation :: string
  country :: string
  city :: "string option"
  expertiseArea :: string
  publicationsCount :: int
  hIndex :: int
  citations :: int

text \<open>
  One element of the parsed JSON array, as the keyword arguments of \<open>KOL(**item)\<close>.
  The model covers items that carry every required key with a value of the field's
  JSON type; pydantic's missing-key and type errors and its lax-mode coercions are not
  modelled.
\<close>

record item =
  raw_id :: string
  raw_name :: string
  raw_affiliation :: string
  raw_country :: string
  raw_city :: "string option"
  raw_expertiseArea :: string
  raw_publicationsCount :: int
  raw_hIndex :: int
  raw_citations :: int

subsection \<open>Python's \<open>str(int)\<close>, for the validator's message\<close>

definition digit_char :: "nat \<Rightarrow> char" where
  "digit_char d = ''0123456789'' ! d"

fun str_nat :: "nat \<Rightarrow> string" where
  "str_nat n = (if n < 10 then [digit_char n] else str_nat (n div 10) @ [digit_char (n mod 10)])"

declare str_nat.simps [simp del]

definition str_int :: "int \<Rightarrow> string" where
  "str_int i = (if i < 0 then CHR ''-'' # str_nat (nat (- i)) else str_nat (nat i))"

subsection \<open>Field-by-field validation\<close>

text \<open>
  Pydantic validates the fields of a model in the order of their declaration.  The
  dictionary \<open>values\<close> handed to a \<open>@validator\<close> holds the fields validated so far,
  those declared before the validator's own field and free of errors.
\<close>

datatype field_value = StrV string | OptStrV "string option" | IntV int

type_synonym field_values = "string \<rightharpoonup> field_value"

fun int_of_value :: "field_value \<Rightarrow> int" where
  "int_of_value (IntV i) = i"
| "int_of_value _ = 0"

definition validate_publications_vs_hindex :: "int \<Rightarrow> field_values \<Rightarrow> string + int" where
  "validate_publications_vs_hindex v values =
     (if ''hIndex'' \<in> dom values \<and> v < int_of_value (the (values ''hIndex''))
      then Inl (''publicationsCount ('' @ str_int v @ '') must be >= hIndex (''
                @ str_int (int_of_value (the (values ''hIndex''))) @ '')'')
      else Inr v)"

text \<open>The declared constraints of the fields: \<open>min_length\<close> and \<open>ge\<close>.\<close>

definition str_field :: "nat \<Rightarrow> string \<Rightarrow> field_error + field_value" where
  "str_field min_length s = (if length s < min_length then Inl (MinLength min_length) else Inr (StrV s))"

definition int_field :: "int \<Rightarrow> int \<Rightarrow> field_error + field_value" where
  "int_field ge i = (if i < ge then Inl (GreaterEqual ge) else Inr (IntV i))"

definition publicationsCount_field :: "int \<Rightarrow> field_values \<Rightarrow> field_error + field_value" where
  "publicationsCount_field i values =
     (case int_field 0 i of
        Inl e \<Rightarrow> Inl e
      | Inr _ \<Rightarrow> (case validate_publications_vs_hindex i values of
                    Inl msg \<Rightarrow> Inl (ValidatorError msg)
                  | Inr v \<Rightarrow> Inr (IntV v)))"

text \<open>
  The state of one model validation: the fields validated so far and the errors so far.
  A field that fails adds its error and stays out of \<open>values\<close>.
\<close>

type_synonym validation = "field_values \<times> (string \<times> field_error) list"

definition validate_field :: "string \<Rightarrow> (field_values \<Rightarrow> field_error + field_value) \<Rightarrow> validation \<Rightarrow> validation" where
  "validate_field fname check st =
     (case check (fst st) of
        Inl e \<Rightarrow> (fst st, snd st @ [(fname, e)])
      | Inr v \<Rightarrow> ((fst st)(fname \<mapsto> v), snd st))"

definition validate_fields :: "item \<Rightarrow> validation" where
  "validate_fields it =
     (validate_field ''citations'' (\<lambda>_. int_field 0 (raw_citations it))
     (validate_field ''hIndex'' (\<lambda>_. int_field 0 (raw_hIndex it))
     (validate_field ''publicationsCount'' (publicationsCount_field (raw_publicationsCount it))
     (validate_field ''expertiseArea'' (\<lambda>_. str_field 0 (raw_expertiseArea it))
     (validate_field ''city'' (\<lambda>_. Inr (OptStrV (raw_city it)))
     (validate_field ''country'' (\<lambda>_. str_field 1 (raw_country it))
     (validate_field ''affiliation'' (\<lambda>_. str_field 0 (raw_affiliation it))
     (validate_field ''name'' (\<lambda>_. str_field 1 (raw_name it))
     (validate_field ''id'' (\<lambda>_. str_field 0 (raw_id it))
       (Map.empty, []))))))))))"

definition kol_of_item :: "item \<Rightarrow> KOL" where
  "kol_of_item it =
     \<lparr> kol_id = raw_id it, name = raw_name it, affiliation = raw_affiliation it,
       country = raw_country it, city = raw_city it, expertiseArea = raw_expertiseArea it,
       publicationsCount = raw_publicationsCount it, hIndex = raw_hIndex it,
       citations = raw_citations it \<rparr>"

definition KOL_init :: "item \<Rightarrow> py_error + KOL" where
  "KOL_init it =
     (case snd (validate_fields it) of
        [] \<Rightarrow> Inr (kol_of_item it)
      | e # es \<Rightarrow> Inl (ValidationError (e # es)))"

section \<open>Data store (\<open>KOLService\<close>)\<close>

record service =
  kols :: "KOL list"
  kols_by_id :: "string \<rightharpoonup> KOL"

text \<open>What \<open>_load_data\<close> finds at \<open>settings.json_data_path\<close>.\<close>

datatype data_file = NoFile | NotJson | JsonArray "item list"

text \<open>\<open>[KOL(**item) for item in raw_data]\<close>: the first failing item aborts the load.\<close>

fun validate_all :: "item list \<Rightarrow> py_error + KOL list" where
  "validate_all [] = Inr []"
| "validate_all (it # its) =
     (case KOL_init it of
        Inl e \<Rightarrow> Inl e
      | Inr k \<Rightarrow> (case validate_all its of Inl e \<Rightarrow> Inl e | Inr ks \<Rightarrow> Inr (k # ks)))"

text \<open>\<open>{kol.id: kol for kol in self._kols}\<close>: a later entry replaces an earlier one.\<close>

definition index_by_id :: "KOL list \<Rightarrow> (string \<rightharpoonup> KOL)" where
  "index_by_id ks = foldl (\<lambda>m k. m(kol_id k \<mapsto> k)) Map.empty ks"

definition load_data :: "data_file \<Rightarrow> py_error + service" where
  "load_data f =
     (case f of
        NoFile \<Rightarrow> Inl FileNotFoundError
      | NotJson \<Rightarrow> Inl JSONDecodeError
      | JsonArray raw_data \<Rightarrow>
          (case validate_all raw_data of
             Inl e \<Rightarrow> Inl e
           | Inr ks \<Rightarrow> Inr \<lparr> kols = ks, kols_by_id = index_by_id ks \<rparr>))"

definition get_all_kols :: "service \<Rightarrow> KOL list" where
  "get_all_kols s = kols s"

definition get_kol_by_id :: "service \<Rightarrow> string \<Rightarrow> KOL option" where
  "get_kol_by_id s i = kols_by_id s i"

section \<open>Query engine (\<open>search_kols\<close>)\<close>

text \<open>
  A \<open>str\<close> is the list of the bytes of its UTF-8 encoding: emptiness, equality and the
  substring test \<open>in\<close> of two strings are those of their byte lists.  Python's
  \<open>str.lower\<close> is Unicode-aware and is not modelled: the search takes it as its first
  argument \<open>lower\<close>, and what is proved of the search holds for every such function.
\<close>

text \<open>Truth value of an \<open>Optional[str]\<close> in an \<open>if\<close>: neither \<open>None\<close> nor empty.\<close>

fun truthy :: "string option \<Rightarrow> bool" where
  "truthy None = False"
| "truthy (Some s) = (s \<noteq> [])"

definition search_kols ::
  "(string \<Rightarrow> string) \<Rightarrow> service \<Rightarrow> string option \<Rightarrow> string option \<Rightarrow> string option
     \<Rightarrow> int option \<Rightarrow> int option \<Rightarrow> KOL list" where
  "search_kols lower s query country_arg expertise_area min_h_index max_h_index =
     (let results = kols s;
          results = (if truthy query
                     then (let query_lower = lower (the query)
                           in filter (\<lambda>kol. sublist query_lower (lower (name kol))
                                          \<or> sublist query_lower (lower (affiliation kol))) results)
                     else results);
          results = (if truthy country_arg
                     then filter (\<lambda>kol. country kol = the country_arg) results
                     else results);
          results = (if truthy expertise_area
                     then filter (\<lambda>kol. expertiseArea kol = the expertise_area) results
                     else results);
          results = (case min_h_index of
                       Some lo \<Rightarrow> filter (\<lambda>kol. hIndex kol \<ge> lo) results
                     | None \<Rightarrow> results);
          results = (case max_h_index of
                       Some hi \<Rightarrow> filter (\<lambda>kol. hIndex kol \<le> hi) results
                     | None \<Rightarrow> results)
      in results)"

section \<open>Python numbers\<close>

text \<open>
  A finite float is the rational number it denotes (the sign of zero is not tracked).
  \<open>round_to_double\<close> is rounding to the nearest IEEE 754 binary64 value, ties to even,
  with gradual underflow and no upper bound on the exponent; the operations below apply
  it to the exact result and handle the overflow themselves.
\<close>

definition round_half_even :: "rat \<Rightarrow> int" where
  "round_half_even y =
     (let f = \<lfloor>y\<rfloor>; d = y - of_int f
      in if d < 1 / 2 then f else if d > 1 / 2 then f + 1 else if even f then f else f + 1)"

text \<open>\<open>ilog2 x\<close> is the binary exponent of \<open>x > 0\<close>: \<open>2 powi ilog2 x \<le> x < 2 powi (ilog2 x + 1)\<close>.\<close>

definition ilog2 :: "rat \<Rightarrow> int" where
  "ilog2 x =
     (let d = bitlen (fst (quotient_of x)) - bitlen (snd (quotient_of x))
      in if 2 powi d \<le> x then d else d - 1)"

definition round_to_double :: "rat \<Rightarrow> rat" where
  "round_to_double x =
     (if x = 0 then 0
      else (let s = max (ilog2 \<bar>x\<bar>) (- 1022) - 52
            in sgn x * of_int (round_half_even (\<bar>x\<bar> / 2 powi s)) * 2 powi s))"

text \<open>The first magnitude beyond the largest finite double.\<close>

definition float_limit :: rat where
  "float_limit = 2 ^ 1024"

text \<open>\<open>a / b\<close> on two \<open>int\<close>s: correctly rounded, and an error when out of range.\<close>

definition true_div :: "int \<Rightarrow> int \<Rightarrow> py_error + rat" where
  "true_div a b =
     (if b = 0 then Inl ZeroDivisionError
      else (let r = round_to_double (of_int a / of_int b)
            in if \<bar>r\<bar> \<ge> float_limit then Inl OverflowError else Inr r))"

text \<open>Float arithmetic does not raise on overflow: the result is an infinity.\<close>

datatype pyfloat = Finite rat | PosInf | NegInf | NaN

definition to_float :: "rat \<Rightarrow> pyfloat" where
  "to_float r = (if r \<ge> float_limit then PosInf else if r \<le> - float_limit then NegInf else Finite r)"

definition float_sub :: "rat \<Rightarrow> rat \<Rightarrow> pyfloat" where
  "float_sub x y = to_float (round_to_double (x - y))"

fun float_mul :: "pyfloat \<Rightarrow> rat \<Rightarrow> pyfloat" where
  "float_mul (Finite x) y = to_float (round_to_double (x * y))"
| "float_mul PosInf y = (if y > 0 then PosInf else if y < 0 then NegInf else NaN)"
| "float_mul NegInf y = (if y > 0 then NegInf else if y < 0 then PosInf else NaN)"
| "float_mul NaN y = NaN"

fun float_div :: "pyfloat \<Rightarrow> rat \<Rightarrow> py_error + pyfloat" where
  "float_div x y =
     (if y = 0 then Inl ZeroDivisionError
      else Inr (case x of
                  Finite a \<Rightarrow> to_float (round_to_double (a / y))
                | PosInf \<Rightarrow> (if y > 0 then PosInf else NegInf)
                | NegInf \<Rightarrow> (if y > 0 then NegInf else PosInf)
                | NaN \<Rightarrow> NaN))"

text \<open>
  \<open>round(x, ndigits)\<close> on a float: the exact value is rounded to \<open>ndigits\<close> decimals,
  ties to even, and the decimal is read back as the nearest float; infinities and NaN
  round to themselves.
\<close>

definition round_digits :: "rat \<Rightarrow> nat \<Rightarrow> rat" where
  "round_digits x ndigits = round_to_double (of_int (round_half_even (x * 10 ^ ndigits)) / 10 ^ ndigits)"

fun py_round :: "pyfloat \<Rightarrow> nat \<Rightarrow> pyfloat" where
  "py_round (Finite x) ndigits = Finite (round_digits x ndigits)"
| "py_round x ndigits = x"

section \<open>Statistics engine (\<open>calculate_statistics\<close>)\<close>

subsection \<open>Response models\<close>

record CountryDistribution =
  cd_country :: string
  cd_count :: nat
  cd_percentage :: rat

record ExpertiseDistribution =
  ed_expertiseArea :: string
  ed_count :: nat
  ed_percentage :: rat

record TopCitationRatioKOL =
  kol :: KOL
  ratio :: rat
  percentageAboveAverage :: pyfloat

record KOLStats =
  totalKOLs :: nat
  totalPublications :: int
  countriesRepresented :: nat
  avgHIndex :: rat
  avgCitationsPerPublication :: rat
  topCountries :: "CountryDistribution list"
  expertiseDistribution :: "ExpertiseDistribution list"
  topCitationRatioKOL :: TopCitationRatioKOL

text \<open>
  The constraints of the response models: a float field with \<open>ge\<close> and \<open>le\<close> accepts a
  finite value within the bounds only.  A count is a \<open>nat\<close>, so its \<open>ge=0\<close> holds by type.
\<close>

definition percentage_field :: "string \<Rightarrow> pyfloat \<Rightarrow> py_error + rat" where
  "percentage_field fname p =
     (case p of
        Finite r \<Rightarrow> (if r < 0 then Inl (ValidationError [(fname, GreaterEqual 0)])
                     else if r > 100 then Inl (ValidationError [(fname, LessEqual 100)])
                     else Inr r)
      | PosInf \<Rightarrow> Inl (ValidationError [(fname, LessEqual 100)])
      | NegInf \<Rightarrow> Inl (ValidationError [(fname, GreaterEqual 0)])
      | NaN \<Rightarrow> Inl (ValidationError [(fname, GreaterEqual 0)]))"

definition nonneg_field :: "string \<Rightarrow> rat \<Rightarrow> (string \<times> field_error) list" where
  "nonneg_field fname r = (if r < 0 then [(fname, GreaterEqual 0)] else [])"

subsection \<open>\<open>collections.Counter\<close>\<close>

text \<open>
  A \<open>Counter\<close> is a dictionary: its items stand in the order in which the keys were first
  counted.
\<close>

fun counter_add :: "'a \<Rightarrow> ('a \<times> nat) list \<Rightarrow> ('a \<times> nat) list" where
  "counter_add x [] = [(x, 1)]"
| "counter_add x ((y, n) # c) = (if x = y then (y, n + 1) # c else (y, n) # counter_add x c)"

definition Counter :: "'a list \<Rightarrow> ('a \<times> nat) list" where
  "Counter xs = foldl (\<lambda>c x. counter_add x c) [] xs"

text \<open>
  \<open>sorted(items, key=lambda x: x[1], reverse=True)\<close>: Python's sort is stable, and with
  \<open>reverse=True\<close> items of equal count keep their original order.  \<open>most_common(n)\<close> is
  \<open>heapq.nlargest(n, items, key)\<close>, documented as that sorted list cut to \<open>n\<close> items.
\<close>

definition sorted_by_count_desc :: "('a \<times> nat) list \<Rightarrow> ('a \<times> nat) list" where
  "sorted_by_count_desc c = sort_key (\<lambda>p. - int (snd p)) c"

definition most_common :: "nat \<Rightarrow> ('a \<times> nat) list \<Rightarrow> ('a \<times> nat) list" where
  "most_common n c = take n (sorted_by_count_desc c)"

subsection \<open>The computation\<close>

text \<open>A list comprehension whose element expression may raise.\<close>

fun map_result :: "('a \<Rightarrow> py_error + 'b) \<Rightarrow> 'a list \<Rightarrow> py_error + 'b list" where
  "map_result f [] = Inr []"
| "map_result f (x # xs) =
     (case f x of
        Inl e \<Rightarrow> Inl e
      | Inr y \<Rightarrow> (case map_result f xs of Inl e \<Rightarrow> Inl e | Inr ys \<Rightarrow> Inr (y # ys)))"

text \<open>\<open>(count / total_kols) * 100\<close>\<close>

definition percentage_of :: "nat \<Rightarrow> nat \<Rightarrow> py_error + pyfloat" where
  "percentage_of n total_kols =
     (case true_div (int n) (int total_kols) of
        Inl e \<Rightarrow> Inl e
      | Inr q \<Rightarrow> Inr (float_mul (Finite q) 100))"

definition country_entry :: "nat \<Rightarrow> string \<times> nat \<Rightarrow> py_error + CountryDistribution" where
  "country_entry total_kols p =
     (case percentage_of (snd p) total_kols of
        Inl e \<Rightarrow> Inl e
      | Inr pc \<Rightarrow> (case percentage_field ''percentage'' pc of
                     Inl e \<Rightarrow> Inl e
                   | Inr r \<Rightarrow> Inr \<lparr> cd_country = fst p, cd_count = snd p, cd_percentage = r \<rparr>))"

definition expertise_entry :: "nat \<Rightarrow> string \<times> nat \<Rightarrow> py_error + ExpertiseDistribution" where
  "expertise_entry total_kols p =
     (case percentage_of (snd p) total_kols of
        Inl e \<Rightarrow> Inl e
      | Inr pc \<Rightarrow> (case percentage_field ''percentage'' pc of
                     Inl e \<Rightarrow> Inl e
                   | Inr r \<Rightarrow> Inr \<lparr> ed_expertiseArea = fst p, ed_count = snd p, ed_percentage = r \<rparr>))"

text \<open>\<open>kol.citations / kol.publicationsCount if kol.publicationsCount > 0 else 0\<close>\<close>

definition citation_ratio :: "KOL \<Rightarrow> py_error + rat" where
  "citation_ratio k =
     (if publicationsCount k > 0 then true_div (citations k) (publicationsCount k) else Inr 0)"

definition with_ratio :: "KOL \<Rightarrow> py_error + KOL \<times> rat" where
  "with_ratio k = (case citation_ratio k of Inl e \<Rightarrow> Inl e | Inr r \<Rightarrow> Inr (k, r))"

text \<open>
  \<open>max(iterable, key=...)\<close> is a linear scan that replaces the candidate only by a
  strictly greater item, and raises on an empty iterable.
\<close>

fun max_scan :: "('a \<Rightarrow> rat) \<Rightarrow> 'a \<Rightarrow> 'a list \<Rightarrow> 'a" where
  "max_scan key best [] = best"
| "max_scan key best (x # xs) = max_scan key (if key x > key best then x else best) xs"

fun py_max :: "('a \<Rightarrow> rat) \<Rightarrow> 'a list \<Rightarrow> py_error + 'a" where
  "py_max key [] = Inl (ValueError ''max() arg is an empty sequence'')"
| "py_max key (x # xs) = Inr (max_scan key x xs)"

text \<open>\<open>total_citations / total_publications if total_publications > 0 else 0\<close>\<close>

definition avg_citations_per_pub :: "KOL list \<Rightarrow> py_error + rat" where
  "avg_citations_per_pub ks =
     (let total_publications = sum_list (map publicationsCount ks);
          total_citations = sum_list (map citations ks)
      in if total_publications > 0 then true_div total_citations total_publications else Inr 0)"

text \<open>\<open>((top_ratio - avg_citations_per_pub) / avg_citations_per_pub) * 100\<close>\<close>

definition percentage_above_avg :: "rat \<Rightarrow> rat \<Rightarrow> py_error + pyfloat" where
  "percentage_above_avg top_ratio avg =
     (case float_div (float_sub top_ratio avg) avg of
        Inl e \<Rightarrow> Inl e
      | Inr q \<Rightarrow> Inr (float_mul q 100))"

definition TopCitationRatioKOL_init :: "KOL \<Rightarrow> rat \<Rightarrow> pyfloat \<Rightarrow> py_error + TopCitationRatioKOL" where
  "TopCitationRatioKOL_init k r p =
     (case nonneg_field ''ratio'' r of
        [] \<Rightarrow> Inr \<lparr> kol = k, ratio = r, percentageAboveAverage = p \<rparr>
      | e # es \<Rightarrow> Inl (ValidationError (e # es)))"

definition KOLStats_init ::
  "nat \<Rightarrow> int \<Rightarrow> nat \<Rightarrow> rat \<Rightarrow> rat \<Rightarrow> CountryDistribution list \<Rightarrow> ExpertiseDistribution list
     \<Rightarrow> TopCitationRatioKOL \<Rightarrow> py_error + KOLStats" where
  "KOLStats_init total_kols total_publications countries_represented avg_h avg_c top_countries
       expertise_distribution top_kol =
     (case (if total_publications < 0 then [(''totalPublications'', GreaterEqual 0)] else [])
           @ nonneg_field ''avgHIndex'' avg_h
           @ nonneg_field ''avgCitationsPerPublication'' avg_c
           @ (if length top_countries > 10 then [(''topCountries'', MaxLength 10)] else []) of
        [] \<Rightarrow> Inr \<lparr> totalKOLs = total_kols, totalPublications = total_publications,
                    countriesRepresented = countries_represented, avgHIndex = avg_h,
                    avgCitationsPerPublication = avg_c, topCountries = top_countries,
                    expertiseDistribution = expertise_distribution,
                    topCitationRatioKOL = top_kol \<rparr>
      | e # es \<Rightarrow> Inl (ValidationError (e # es)))"

definition calculate_statistics :: "service \<Rightarrow> py_error + KOLStats" where
  "calculate_statistics s =
     (if kols s = [] then Inl (ValueError ''No KOL data available for statistics calculation'')
      else
        (let total_kols = length (kols s);
             total_publications = sum_list (map publicationsCount (kols s))
         in case true_div (sum_list (map hIndex (kols s))) (int total_kols) of
              Inl e \<Rightarrow> Inl e
            | Inr avg_h_index \<Rightarrow>
         (case avg_citations_per_pub (kols s) of
              Inl e \<Rightarrow> Inl e
            | Inr avg \<Rightarrow>
         (let country_counts = Counter (map country (kols s));
              countries_represented = length country_counts
          in case map_result (country_entry total_kols) (most_common 10 country_counts) of
              Inl e \<Rightarrow> Inl e
            | Inr top_countries \<Rightarrow>
         (let expertise_counts = Counter (map expertiseArea (kols s))
          in case map_result (expertise_entry total_kols) (sorted_by_count_desc expertise_counts) of
              Inl e \<Rightarrow> Inl e
            | Inr expertise_distribution \<Rightarrow>
         (case map_result with_ratio (kols s) of
              Inl e \<Rightarrow> Inl e
            | Inr kol_with_ratios \<Rightarrow>
         (case py_max snd kol_with_ratios of
              Inl e \<Rightarrow> Inl e
            | Inr (top_kol, top_ratio) \<Rightarrow>
         (case percentage_above_avg top_ratio avg of
              Inl e \<Rightarrow> Inl e
            | Inr pct \<Rightarrow>
         (case TopCitationRatioKOL_init top_kol (round_digits top_ratio 2) (py_round pct 2) of
              Inl e \<Rightarrow> Inl e
            | Inr top_citation_ratio_kol \<Rightarrow>
              KOLStats_init total_kols total_publications countries_represented
                (round_digits avg_h_index 1) (round_digits avg 1)
                top_countries expertise_distribution top_citation_ratio_kol)))))))))"

section \<open>Notions of the specification\<close>

text \<open>
  The predicates of a search as the specification words them: a record satisfies every
  predicate that is supplied, and a predicate that is absent constrains nothing.  The
  text query matches without regard to case in the sense of \<open>lower\<close>: the lowered query
  is a substring of the lowered name or affiliation.
\<close>

definition satisfies ::
  "(string \<Rightarrow> string) \<Rightarrow> string option \<Rightarrow> string option \<Rightarrow> string option
     \<Rightarrow> int option \<Rightarrow> int option \<Rightarrow> KOL \<Rightarrow> bool" where
  "satisfies lower textQuery country_p expertiseArea_p minHIndex maxHIndex k =
     ((case textQuery of
         None \<Rightarrow> True
       | Some q \<Rightarrow> sublist (lower q) (lower (name k)) \<or> sublist (lower q) (lower (affiliation k)))
    \<and> (case country_p of None \<Rightarrow> True | Some c \<Rightarrow> country k = c)
    \<and> (case expertiseArea_p of None \<Rightarrow> True | Some e \<Rightarrow> expertiseArea k = e)
    \<and> (case minHIndex of None \<Rightarrow> True | Some lo \<Rightarrow> lo \<le> hIndex k)
    \<and> (case maxHIndex of None \<Rightarrow> True | Some hi \<Rightarrow> hIndex k \<le> hi))"

text \<open>A text predicate as the code takes it: the empty string counts as absent.\<close>

fun supplied :: "string option \<Rightarrow> string option" where
  "supplied None = None"
| "supplied (Some s) = (if s = [] then None else Some s)"

text \<open>
  The citation ratio of a record as the specification words it, \<open>citations /
  publicationsCount\<close> where the count is positive and 0 otherwise, the quotient being the
  float that Python's division yields.
\<close>

definition ratio_of :: "KOL \<Rightarrow> rat" where
  "ratio_of k =
     (if publicationsCount k > 0
      then round_to_double (of_int (citations k) / of_int (publicationsCount k))
      else 0)"

text \<open>The position at which a label is first encountered in a sequence.\<close>

definition first_index :: "'a list \<Rightarrow> 'a \<Rightarrow> nat" where
  "first_index xs x = length (takeWhile (\<lambda>y. y \<noteq> x) xs)"

text \<open>
  A division of two \<open>int\<close>s that precedes the computation of \<open>percentageAboveAverage\<close>
  leaves the range of floats: the mean hIndex, or the citation ratio of a record.
\<close>

definition division_overflows :: "service \<Rightarrow> bool" where
  "division_overflows s =
     (true_div (sum_list (map hIndex (kols s))) (int (length (kols s))) = Inl OverflowError
      \<or> (\<exists>k \<in> set (kols s). citation_ratio k = Inl OverflowError))"

section \<open>Example data\<close>

text \<open>
  The three-record fixture of the specification (publications 10, 20, 5; hIndex 5, 8, 3;
  citations 100, 200, 50), a fourth item that reuses the id of the first, and an item
  whose publicationsCount is below its hIndex.
\<close>

definition item_a :: item where
  "item_a = \<lparr> raw_id = ''1'', raw_name = ''Dr. Sarah Johnson'', raw_affiliation = ''Harvard Medical School'',
      raw_country = ''United States'', raw_city = Some ''Boston'', raw_expertiseArea = ''Dermatology'',
      raw_publicationsCount = 10, raw_hIndex = 5, raw_citations = 100 \<rparr>"

definition item_b :: item where
  "item_b = \<lparr> raw_id = ''2'', raw_name = ''Dr. Jean Martin'', raw_affiliation = ''Sorbonne'',
      raw_country = ''France'', raw_city = None, raw_expertiseArea = ''Vitiligo'',
      raw_publicationsCount = 20, raw_hIndex = 8, raw_citations = 200 \<rparr>"

definition item_c :: item where
  "item_c = \<lparr> raw_id = ''3'', raw_name = ''Dr. Aiko Tanaka'', raw_affiliation = ''University of Tokyo'',
      raw_country = ''Japan'', raw_city = Some ''Tokyo'', raw_expertiseArea = ''Immunology'',
      raw_publicationsCount = 5, raw_hIndex = 3, raw_citations = 50 \<rparr>"

definition item_dup :: item where
  "item_dup = \<lparr> raw_id = ''1'', raw_name = ''Dr. Omar Haddad'', raw_affiliation = ''Cairo University'',
      raw_country = ''Egypt'', raw_city = None, raw_expertiseArea = ''Vitiligo'',
      raw_publicationsCount = 7, raw_hIndex = 4, raw_citations = 21 \<rparr>"

definition item_low :: item where
  "item_low = \<lparr> raw_id = ''4'', raw_name = ''Dr. Lena Berg'', raw_affiliation = ''Karolinska'',
      raw_country = ''Sweden'', raw_city = None, raw_expertiseArea = ''Dermatology'',
      raw_publicationsCount = 3, raw_hIndex = 5, raw_citations = 40 \<rparr>"

text \<open>
  The examples are ASCII text, on which \<open>str.lower\<close> maps the letters A to Z to a to z
  and keeps every other character.
\<close>

definition ascii_lower :: "string \<Rightarrow> string" where
  "ascii_lower s =
     map (\<lambda>c. case map_of (zip ''ABCDEFGHIJKLMNOPQRSTUVWXYZ'' ''abcdefghijklmnopqrstuvwxyz'') c of
                Some l \<Rightarrow> l
              | None \<Rightarrow> c) s"

text \<open>The store that a successful load of the items builds.\<close>

definition store_of :: "item list \<Rightarrow> service" where
  "store_of its = \<lparr> kols = map kol_of_item its, kols_by_id = index_by_id (map kol_of_item its) \<rparr>"

definition fixture :: service where
  "fixture = store_of [item_a, item_b, item_c]"

text \<open>
  The statistics of the fixture: 5.3 and 10.0 are the floats nearest to them, and each of
  the three labels has one record out of three, the float \<open>(1 / 3) * 100\<close>.
\<close>

definition fixture_stats :: KOLStats where
  "fixture_stats =
     \<lparr> totalKOLs = 3, totalPublications = 35, countriesRepresented = 3,
       avgHIndex = 5967269506265907 / 1125899906842624,
       avgCitationsPerPublication = 10,
       topCountries =
         [\<lparr> cd_country = ''United States'', cd_count = 1, cd_percentage = 2345624805922133 / 70368744177664 \<rparr>,
          \<lparr> cd_country = ''France'', cd_count = 1, cd_percentage = 2345624805922133 / 70368744177664 \<rparr>,
          \<lparr> cd_country = ''Japan'', cd_count = 1, cd_percentage = 2345624805922133 / 70368744177664 \<rparr>],
       expertiseDistribution =
         [\<lparr> ed_expertiseArea = ''Dermatology'', ed_count = 1, ed_percentage = 2345624805922133 / 70368744177664 \<rparr>,
          \<lparr> ed_expertiseArea = ''Vitiligo'', ed_count = 1, ed_percentage = 2345624805922133 / 70368744177664 \<rparr>,
          \<lparr> ed_expertiseArea = ''Immunology'', ed_count = 1, ed_percentage = 2345624805922133 / 70368744177664 \<rparr>],
       topCitationRatioKOL =
         \<lparr> kol = kol_of_item item_a, ratio = 10, percentageAboveAverage = Finite 0 \<rparr> \<rparr>"

text \<open>
  A record without publications, and a record whose hIndex and publicationsCount are
  \<open>2 ^ 1024\<close>, the first integer that is too large for a float.
\<close>

definition huge_int :: int where
  "huge_int = 2 ^ 1024"

definition item_unpublished :: item where
  "item_unpublished = \<lparr> raw_id = ''5'', raw_name = ''Dr. Noor Rahman'', raw_affiliation = ''Dhaka Medical College'',
      raw_country = ''Bangladesh'', raw_city = None, raw_expertiseArea = ''Dermatology'',
      raw_publicationsCount = 0, raw_hIndex = 0, raw_citations = 12 \<rparr>"

definition item_huge :: item where
  "item_huge = \<lparr> raw_id = ''6'', raw_name = ''Dr. Max Gross'', raw_affiliation = ''ETH'',
      raw_country = ''Switzerland'', raw_city = None, raw_expertiseArea = ''Dermatology'',
      raw_publicationsCount = huge_int, raw_hIndex = huge_int, raw_citations = 0 \<rparr>"

text \<open>
  A panel of sixteen members from eleven countries, the last country with six members:
  one more country than \<open>topCountries\<close> may hold.  All members have 10 publications,
  hIndex 4 and 100 citations, so that every quotient is a float without rounding.
\<close>

definition member :: "string \<Rightarrow> string \<Rightarrow> item" where
  "member i c = \<lparr> raw_id = i, raw_name = ''Dr. A. Member'', raw_affiliation = ''Panel'',
      raw_country = c, raw_city = None, raw_expertiseArea = ''Dermatology'',
      raw_publicationsCount = 10, raw_hIndex = 4, raw_citations = 100 \<rparr>"

definition panel :: service where
  "panel = store_of
     [member ''1'' ''Argentina'', member ''2'' ''Belgium'', member ''3'' ''Canada'',
      member ''4'' ''Denmark'', member ''5'' ''Egypt'', member ''6'' ''Finland'',
      member ''7'' ''Greece'', member ''8'' ''Hungary'', member ''9'' ''India'',
      member ''10'' ''Japan'', member ''11'' ''Kenya'', member ''12'' ''Kenya'',
      member ''13'' ''Kenya'', member ''14'' ''Kenya'', member ''15'' ''Kenya'',
      member ''16'' ''Kenya'']"

definition one_of_sixteen :: "string \<Rightarrow> CountryDistribution" where
  "one_of_sixteen c = \<lparr> cd_country = c, cd_count = 1, cd_percentage = 25 / 4 \<rparr>"

definition panel_stats :: KOLStats where
  "panel_stats =
     \<lparr> totalKOLs = 16, totalPublications = 160, countriesRepresented = 11,
       avgHIndex = 4, avgCitationsPerPublication = 10,
       topCountries =
         [\<lparr> cd_country = ''Kenya'', cd_count = 6, cd_percentage = 75 / 2 \<rparr>,
          one_of_sixteen ''Argentina'', one_of_sixteen ''Belgium'', one_of_sixteen ''Canada'',
          one_of_sixteen ''Denmark'', one_of_sixteen ''Egypt'', one_of_sixteen ''Finland'',
          one_of_sixteen ''Greece'', one_of_sixteen ''Hungary'', one_of_sixteen ''India''],
       expertiseDistribution =
         [\<lparr> ed_expertiseArea = ''Dermatology'', ed_count = 16, ed_percentage = 100 \<rparr>],
       topCitationRatioKOL =
         \<lparr> kol = kol_of_item (member ''1'' ''Argentina''), ratio = 10,
           percentageAboveAverage = Finite 0 \<rparr> \<rparr>"

section \<open>Validation\<close>

lemmas field_checks =
  validate_fields_def validate_field_def str_field_def int_field_def
  publicationsCount_field_def validate_publications_vs_hindex_def

text \<open>
  The validator itself does what its docstring says once \<open>hIndex\<close> is among the values it
  is given: it rejects 3 against 5 with a message that cites both numbers.
\<close>

lemma validator_rejects_when_hindex_known:
  "values ''hIndex'' = Some (IntV 5) \<Longrightarrow>
     validate_publications_vs_hindex 3 values = Inl ''publicationsCount (3) must be >= hIndex (5)''"
  by (simp add: validate_publications_vs_hindex_def str_int_def str_nat.simps digit_char_def dom_def)

text \<open>
  But \<open>hIndex\<close> is declared after \<open>publicationsCount\<close>, so it is never among the values
  when the validator runs, and no item is ever rejected by the validator.
\<close>

lemma validator_never_fires:
  "(f, e) \<in> set (snd (validate_fields it)) \<Longrightarrow> e \<noteq> ValidatorError m"
  by (auto simp add: field_checks split: if_splits)

text \<open>
  Claim C2 states that a raw record whose publicationsCount is less than its hIndex fails
  validation, in particular one with publicationsCount 3 and hIndex 5.  The code accepts
  that record: \<open>KOL(**item)\<close> returns the typed record.
\<close>

theorem KOL_init_accepts_publications_below_hindex:
  "raw_publicationsCount item_low = 3 \<and> raw_hIndex item_low = 5
     \<and> KOL_init item_low = Inr (kol_of_item item_low)"
  by (simp add: KOL_init_def field_checks item_low_def)

section \<open>Data store\<close>

lemma validate_all_map: "validate_all its = Inr ks \<Longrightarrow> ks = map kol_of_item its"
  by (induction its arbitrary: ks) (auto simp: KOL_init_def split: sum.splits list.splits)

lemma index_by_id_snoc: "index_by_id (ks @ [k]) = (index_by_id ks)(kol_id k \<mapsto> k)"
  by (simp add: index_by_id_def)

lemma index_by_id_last:
  "index_by_id ks i =
     (case filter (\<lambda>k. kol_id k = i) ks of [] \<Rightarrow> None | f # fs \<Rightarrow> Some (last (f # fs)))"
proof (induction ks rule: rev_induct)
  case Nil
  then show ?case by (simp add: index_by_id_def)
next
  case (snoc k ks)
  show ?case
  proof (cases "kol_id k = i")
    case True
    then show ?thesis
      by (cases "filter (\<lambda>k. kol_id k = i) ks") (simp_all add: index_by_id_snoc)
  next
    case False
    then show ?thesis using snoc.IH by (simp add: index_by_id_snoc)
  qed
qed

lemma index_by_id_lookup:
  "index_by_id ks i =
     (if i \<in> set (map kol_id ks) then Some (last (filter (\<lambda>k. kol_id k = i) ks)) else None)"
proof (cases "filter (\<lambda>k. kol_id k = i) ks")
  case Nil
  then have "i \<notin> set (map kol_id ks)" by (auto simp: filter_empty_conv)
  with Nil show ?thesis by (simp add: index_by_id_last)
next
  case (Cons f fs)
  then have "f \<in> set (filter (\<lambda>k. kol_id k = i) ks)" by simp
  then have "i \<in> set (map kol_id ks)" by auto
  with Cons show ?thesis by (simp add: index_by_id_last)
qed

lemma load_data_store:
  "load_data (JsonArray raw_data) = Inr s \<Longrightarrow> s = store_of raw_data"
  by (auto simp: load_data_def store_of_def split: sum.splits dest: validate_all_map)

text \<open>
  Claim C6: after a successful load, \<open>get_all_kols\<close> is the whole validated sequence,
  duplicates of an id included; \<open>get_kol_by_id\<close> returns, for an id that occurs, the last
  record of the sequence that bears it, and \<open>None\<close> for an id that does not occur.
\<close>

theorem get_kol_by_id_last_write_wins:
  assumes "load_data (JsonArray raw_data) = Inr s"
  shows "get_all_kols s = map kol_of_item raw_data
       \<and> (\<forall>i. get_kol_by_id s i =
            (if i \<in> set (map kol_id (get_all_kols s))
             then Some (last (filter (\<lambda>k. kol_id k = i) (get_all_kols s)))
             else None))"
  using load_data_store [OF assms]
  by (simp add: store_of_def get_all_kols_def get_kol_by_id_def index_by_id_lookup)

lemma load_example:
  "load_data (JsonArray [item_a, item_b, item_dup]) = Inr (store_of [item_a, item_b, item_dup])"
  by (simp add: load_data_def store_of_def KOL_init_def field_checks item_a_def item_b_def item_dup_def)

theorem get_kol_by_id_last_write_wins_witness:
  "load_data (JsonArray [item_a, item_b, item_dup]) = Inr (store_of [item_a, item_b, item_dup])
     \<and> get_all_kols (store_of [item_a, item_b, item_dup])
         = [kol_of_item item_a, kol_of_item item_b, kol_of_item item_dup]
     \<and> get_kol_by_id (store_of [item_a, item_b, item_dup]) ''1'' = Some (kol_of_item item_dup)
     \<and> get_kol_by_id (store_of [item_a, item_b, item_dup]) ''2'' = Some (kol_of_item item_b)
     \<and> get_kol_by_id (store_of [item_a, item_b, item_dup]) ''3'' = None"
proof -
  note r = get_kol_by_id_last_write_wins [OF load_example]
  have all: "get_all_kols (store_of [item_a, item_b, item_dup])
         = [kol_of_item item_a, kol_of_item item_b, kol_of_item item_dup]"
    using r by simp
  have ids: "map kol_id [kol_of_item item_a, kol_of_item item_b, kol_of_item item_dup] = [''1'', ''2'', ''1'']"
    by (simp add: kol_of_item_def item_a_def item_b_def item_dup_def)
  have "get_kol_by_id (store_of [item_a, item_b, item_dup]) ''1'' = Some (kol_of_item item_dup)"
    using conjunct2 [OF r, rule_format, of "''1''"] ids unfolding all
    by (simp add: kol_of_item_def item_a_def item_b_def item_dup_def)
  moreover have "get_kol_by_id (store_of [item_a, item_b, item_dup]) ''2'' = Some (kol_of_item item_b)"
    using conjunct2 [OF r, rule_format, of "''2''"] ids unfolding all
    by (simp add: kol_of_item_def item_a_def item_b_def item_dup_def)
  moreover have "get_kol_by_id (store_of [item_a, item_b, item_dup]) ''3'' = None"
    using conjunct2 [OF r, rule_format, of "''3''"] ids unfolding all
    by simp
  ultimately show ?thesis using load_example all by simp
qed

section \<open>Query engine\<close>

lemma search_kols_filter:
  "search_kols lower s q c e lo hi
     = filter (satisfies lower (supplied q) (supplied c) (supplied e) lo hi) (kols s)"
proof -
  define r1 where "r1 = (if truthy q
      then filter (\<lambda>kol. sublist (lower (the q)) (lower (name kol))
                       \<or> sublist (lower (the q)) (lower (affiliation kol))) (kols s)
      else kols s)"
  define r2 where "r2 = (if truthy c then filter (\<lambda>kol. country kol = the c) r1 else r1)"
  define r3 where "r3 = (if truthy e then filter (\<lambda>kol. expertiseArea kol = the e) r2 else r2)"
  define r4 where "r4 = (case lo of Some v \<Rightarrow> filter (\<lambda>kol. hIndex kol \<ge> v) r3 | None \<Rightarrow> r3)"
  define r5 where "r5 = (case hi of Some v \<Rightarrow> filter (\<lambda>kol. hIndex kol \<le> v) r4 | None \<Rightarrow> r4)"
  have run: "search_kols lower s q c e lo hi = r5"
    by (simp only: search_kols_def Let_def r1_def r2_def r3_def r4_def r5_def)
  have 1: "r1 = filter (\<lambda>k. case supplied q of None \<Rightarrow> True
              | Some v \<Rightarrow> sublist (lower v) (lower (name k))
                         \<or> sublist (lower v) (lower (affiliation k))) (kols s)"
    unfolding r1_def by (cases q) simp_all
  have 2: "r2 = filter (\<lambda>k. case supplied c of None \<Rightarrow> True | Some v \<Rightarrow> country k = v) r1"
    unfolding r2_def by (cases c) simp_all
  have 3: "r3 = filter (\<lambda>k. case supplied e of None \<Rightarrow> True | Some v \<Rightarrow> expertiseArea k = v) r2"
    unfolding r3_def by (cases e) simp_all
  have 4: "r4 = filter (\<lambda>k. case lo of None \<Rightarrow> True | Some v \<Rightarrow> v \<le> hIndex k) r3"
    unfolding r4_def by (cases lo) simp_all
  have 5: "r5 = filter (\<lambda>k. case hi of None \<Rightarrow> True | Some v \<Rightarrow> hIndex k \<le> v) r4"
    unfolding r5_def by (cases hi) simp_all
  show ?thesis
    unfolding run 5 4 3 2 1 filter_filter conj_assoc
    by (rule filter_cong [OF refl]) (simp add: satisfies_def)
qed

text \<open>
  On the ASCII text of the examples the query is matched without regard to case.
\<close>

lemma search_kols_text_query_example:
  "search_kols ascii_lower (store_of [item_a, item_b]) (Some ''HARVARD'') None None None None
     = [kol_of_item item_a]"
  by (simp add: search_kols_def store_of_def kol_of_item_def item_a_def item_b_def ascii_lower_def
      sublist_Cons_right prefix_Cons)

text \<open>
  Claim C5 as stated: for every combination of the optional predicates, the result is
  exactly the records that satisfy every supplied predicate.  It fails where an empty
  string is supplied for \<open>country\<close>: no record has the empty country, and the code
  returns every record.  No text query is given, so that \<open>str.lower\<close> is not applied.
\<close>

theorem search_kols_empty_country_counterexample:
  "search_kols ascii_lower (store_of [item_a, item_b]) None (Some '''') None None None
     \<noteq> filter (satisfies ascii_lower None (Some '''') None None None)
         (get_all_kols (store_of [item_a, item_b]))"
  by (simp add: search_kols_def get_all_kols_def satisfies_def store_of_def kol_of_item_def
      item_a_def item_b_def)

text \<open>
  Claim C5 as amended: the result is exactly the records, in the store's order, that
  satisfy every supplied bound on hIndex and every text predicate supplied with a
  non-empty string (an empty string counts as absent), the text query matching where
  the \<open>str.lower\<close> of the query is a substring of the \<open>str.lower\<close> of the name or of
  the affiliation; with no predicate the result is \<open>get_all_kols\<close>.  This holds
  whatever function \<open>lower\<close> stands for \<open>str.lower\<close>.
\<close>

theorem search_kols_conjunction_of_supplied:
  "search_kols lower s q c e lo hi
     = filter (satisfies lower (supplied q) (supplied c) (supplied e) lo hi) (get_all_kols s)
   \<and> search_kols lower s None None None None None = get_all_kols s"
  by (simp add: search_kols_filter get_all_kols_def satisfies_def)

text \<open>
  Claim C9: an empty string for \<open>query\<close>, \<open>country\<close> or \<open>expertise_area\<close> behaves as the
  absent predicate, whatever the other arguments are; with all three empty and no
  bounds the result is the full sequence.
\<close>

theorem search_kols_empty_string_is_absent:
  "search_kols lower s (Some '''') c e lo hi = search_kols lower s None c e lo hi
   \<and> search_kols lower s q (Some '''') e lo hi = search_kols lower s q None e lo hi
   \<and> search_kols lower s q c (Some '''') lo hi = search_kols lower s q c None lo hi
   \<and> search_kols lower s (Some '''') (Some '''') (Some '''') None None = get_all_kols s"
  by (simp add: search_kols_def get_all_kols_def)

section \<open>Python numbers\<close>

subsection \<open>Binary exponent\<close>

lemma bitlen_pos: "0 < p \<Longrightarrow> 1 \<le> bitlen p"
  using bitlen_nonneg [of p] bitlen_eq_zero_iff [of p] by linarith

lemma bitlen_powi:
  assumes "0 < p"
  shows "(2::rat) powi (bitlen p - 1) \<le> of_int p" and "of_int p < (2::rat) powi bitlen p"
proof -
  from bitlen_bounds [OF assms]
  have lo: "2 ^ nat (bitlen p - 1) \<le> p" and hi: "p < 2 ^ nat (bitlen p)" by simp_all
  from lo have "(of_int (2 ^ nat (bitlen p - 1)) :: rat) \<le> of_int p" by (simp only: of_int_le_iff)
  then show "(2::rat) powi (bitlen p - 1) \<le> of_int p"
    using bitlen_pos [OF assms] by (simp add: power_int_nonneg_exp)
  from hi have "(of_int p :: rat) < of_int (2 ^ nat (bitlen p))" by (simp only: of_int_less_iff)
  then show "of_int p < (2::rat) powi bitlen p"
    using bitlen_pos [OF assms] by (simp add: power_int_nonneg_exp)
qed

lemma ilog2_bounds:
  assumes "0 < x"
  shows "2 powi ilog2 x \<le> x" and "x < 2 powi (ilog2 x + 1)"
proof -
  obtain p q where pq: "quotient_of x = (p, q)" by (cases "quotient_of x")
  then have q: "0 < q" by (rule quotient_of_denom_pos)
  from pq have x: "x = of_int p / of_int q" by (rule quotient_of_div)
  from assms x q have p: "0 < p" by (simp add: zero_less_divide_iff)
  define d where "d = bitlen p - bitlen q"
  note bp = bitlen_powi [OF p] and bq = bitlen_powi [OF q]
  have "of_int p / of_int q < (2::rat) powi bitlen p / 2 powi (bitlen q - 1)"
    using p q bp bq by (intro frac_less) simp_all
  also have "\<dots> = 2 powi (bitlen p - (bitlen q - 1))"
    by (rule power_int_diff [symmetric]) simp
  also have "bitlen p - (bitlen q - 1) = d + 1"
    by (simp add: d_def)
  finally have upper: "x < 2 powi (d + 1)" by (simp only: x)
  have "(2::rat) powi (bitlen p - 1) / 2 powi bitlen q < of_int p / of_int q"
    using p q bp bq by (intro frac_less2) simp_all
  moreover have "(2::rat) powi (bitlen p - 1) / 2 powi bitlen q = 2 powi (bitlen p - 1 - bitlen q)"
    by (rule power_int_diff [symmetric]) simp
  moreover have "bitlen p - 1 - bitlen q = d - 1"
    by (simp add: d_def)
  ultimately have lower: "2 powi (d - 1) < x" by (simp only: x)
  have il: "ilog2 x = (if 2 powi d \<le> x then d else d - 1)"
    by (simp add: ilog2_def pq d_def Let_def)
  show "2 powi ilog2 x \<le> x"
    using lower by (simp add: il)
  show "x < 2 powi (ilog2 x + 1)"
    using upper by (simp add: il)
qed

lemma ilog2_unique:
  assumes "0 < x" "2 powi e \<le> x" "x < 2 powi (e + 1)"
  shows "ilog2 x = e"
proof -
  note b = ilog2_bounds [OF assms(1)]
  have "(2::rat) powi e < 2 powi (ilog2 x + 1)" using assms(2) b(2) by simp
  then have 1: "e < ilog2 x + 1"
    using power_int_increasing [of "ilog2 x + 1" e "2::rat"] by (cases "e < ilog2 x + 1") simp_all
  have "(2::rat) powi ilog2 x < 2 powi (e + 1)" using assms(3) b(1) by simp
  then have 2: "ilog2 x < e + 1"
    using power_int_increasing [of "e + 1" "ilog2 x" "2::rat"] by (cases "ilog2 x < e + 1") simp_all
  from 1 2 show ?thesis by simp
qed

subsection \<open>Rounding to an integer\<close>

lemma round_half_even_error: "\<bar>of_int (round_half_even y) - y\<bar> \<le> 1 / 2"
proof -
  define f where "f = \<lfloor>y\<rfloor>"
  have fl: "of_int f \<le> y" "y < of_int f + 1" unfolding f_def by linarith+
  have "round_half_even y =
      (if y - of_int f < 1 / 2 then f else if y - of_int f > 1 / 2 then f + 1
       else if even f then f else f + 1)"
    by (simp add: round_half_even_def Let_def f_def)
  with fl show ?thesis
    by (auto simp: abs_if)
qed

lemma round_half_even_eqI:
  assumes "\<bar>y - of_int m\<bar> < 1 / 2"
  shows "round_half_even y = m"
proof (cases "of_int m \<le> y")
  case True
  with assms have "\<lfloor>y\<rfloor> = m" by (intro floor_unique) (simp_all add: abs_if split: if_splits)
  with assms True show ?thesis
    unfolding round_half_even_def Let_def by (simp add: abs_if split: if_splits)
next
  case False
  with assms have "\<lfloor>y\<rfloor> = m - 1" by (intro floor_unique) (simp_all add: abs_if split: if_splits)
  with assms False show ?thesis
    unfolding round_half_even_def Let_def by (simp add: abs_if split: if_splits)
qed

lemma round_half_even_le: "y \<le> of_int k \<Longrightarrow> round_half_even y \<le> k"
proof -
  assume "y \<le> of_int k"
  with round_half_even_error [of y] have "(of_int (round_half_even y) :: rat) \<le> of_int k + 1 / 2"
    by (simp add: abs_if split: if_splits)
  then have "(of_int (round_half_even y) :: rat) < of_int (k + 1)" by simp
  then have "round_half_even y < k + 1" by (simp only: of_int_less_iff)
  then show ?thesis by simp
qed

lemma round_half_even_ge: "of_int k \<le> y \<Longrightarrow> k \<le> round_half_even y"
proof -
  assume "of_int k \<le> y"
  with round_half_even_error [of y] have "(of_int k :: rat) - 1 / 2 \<le> of_int (round_half_even y)"
    by (simp add: abs_if split: if_splits)
  then have "(of_int (k - 1) :: rat) < of_int (round_half_even y)" by simp
  then have "k - 1 < round_half_even y" by (simp only: of_int_less_iff)
  then show ?thesis by simp
qed

subsection \<open>Rounding to a double\<close>

lemma round_to_double_pos:
  "0 < x \<Longrightarrow> round_to_double x =
     of_int (round_half_even (x / 2 powi (max (ilog2 x) (- 1022) - 52)))
       * 2 powi (max (ilog2 x) (- 1022) - 52)"
  by (simp add: round_to_double_def Let_def)

lemma round_to_double_eqI:
  assumes "0 < x" "2 powi e \<le> x" "x < 2 powi (e + 1)"
    and "\<bar>x / 2 powi (max e (- 1022) - 52) - of_int m\<bar> < 1 / 2"
  shows "round_to_double x = of_int m * 2 powi (max e (- 1022) - 52)"
proof -
  have e: "ilog2 x = e" using assms(1-3) by (rule ilog2_unique)
  have "round_half_even (x / 2 powi (max e (- 1022) - 52)) = m"
    using assms(4) by (rule round_half_even_eqI)
  then show ?thesis
    by (simp only: round_to_double_pos [OF assms(1)] e)
qed

lemma round_to_double_error:
  assumes "0 < x"
  shows "\<bar>round_to_double x - x\<bar> \<le> 2 powi (max (ilog2 x) (- 1022) - 53)"
proof -
  define s where "s = max (ilog2 x) (- 1022) - 52"
  define m where "m = round_half_even (x / 2 powi s)"
  have pos: "(0::rat) < 2 powi s" by simp
  have rd: "round_to_double x = of_int m * 2 powi s"
    by (simp only: round_to_double_pos [OF assms] s_def m_def)
  have "round_to_double x - x = (of_int m - x / 2 powi s) * 2 powi s"
    using pos by (simp add: rd field_simps)
  then have "\<bar>round_to_double x - x\<bar> = \<bar>of_int m - x / 2 powi s\<bar> * 2 powi s"
    using pos by (simp add: abs_mult)
  also have "\<dots> \<le> (1 / 2) * 2 powi s"
    using round_half_even_error [of "x / 2 powi s"] pos
    by (intro mult_right_mono) (simp_all add: m_def)
  also have "(1 / 2) * 2 powi s = (2::rat) powi (s - 1)"
    by (simp add: power_int_diff)
  also have "s - 1 = max (ilog2 x) (- 1022) - 53" by (simp add: s_def)
  finally show ?thesis .
qed

lemma round_to_double_error_bound:
  assumes "0 \<le> x"
  shows "\<bar>round_to_double x - x\<bar> \<le> x / 2 ^ 53 + 1 / 2 ^ 1075"
proof (cases "x = 0")
  case True
  then show ?thesis by (simp add: round_to_double_def)
next
  case False
  with assms have pos: "0 < x" by simp
  note err = round_to_double_error [OF pos]
  show ?thesis
  proof (cases "ilog2 x \<le> - 1022")
    case True
    then have "max (ilog2 x) (- 1022) - 53 = - 1075" by simp
    with err have "\<bar>round_to_double x - x\<bar> \<le> 2 powi (- 1075)" by simp
    also have "(2::rat) powi (- 1075) = 1 / 2 ^ 1075"
      by (simp add: power_int_minus_divide)
    also have "\<dots> \<le> x / 2 ^ 53 + 1 / 2 ^ 1075" using pos by simp
    finally show ?thesis .
  next
    case False
    then have "max (ilog2 x) (- 1022) - 53 = ilog2 x - 53" by simp
    with err have "\<bar>round_to_double x - x\<bar> \<le> 2 powi (ilog2 x - 53)" by simp
    also have "(2::rat) powi (ilog2 x - 53) = 2 powi ilog2 x / 2 ^ 53"
      by (simp add: power_int_diff)
    also have "\<dots> \<le> x / 2 ^ 53"
      using ilog2_bounds(1) [OF pos] by (simp add: divide_right_mono)
    also have "\<dots> \<le> x / 2 ^ 53 + 1 / 2 ^ 1075" by simp
    finally show ?thesis .
  qed
qed

lemma round_to_double_nonneg:
  assumes "0 \<le> x"
  shows "0 \<le> round_to_double x"
proof (cases "x = 0")
  case True
  then show ?thesis by (simp add: round_to_double_def)
next
  case False
  with assms have pos: "0 < x" by simp
  have "0 \<le> round_half_even (x / 2 powi (max (ilog2 x) (- 1022) - 52))"
    using pos by (intro round_half_even_ge) simp
  then show ?thesis
    by (simp add: round_to_double_pos [OF pos])
qed

lemma round_to_double_le_int:
  assumes "0 \<le> x" "x \<le> of_int k" "x < 2 ^ 53"
  shows "round_to_double x \<le> of_int k"
proof (cases "x = 0")
  case True
  with assms show ?thesis by (simp add: round_to_double_def)
next
  case False
  with assms have pos: "0 < x" by simp
  define s where "s = max (ilog2 x) (- 1022) - 52"
  have "(2::rat) powi ilog2 x < 2 powi 53"
    using ilog2_bounds(1) [OF pos] assms(3) by simp
  then have "ilog2 x < 53"
    using power_int_increasing [of 53 "ilog2 x" "2::rat"] by (cases "ilog2 x < 53") simp_all
  then have s: "s \<le> 0" by (simp add: s_def)
  have p2: "(2::rat) powi s = 1 / 2 ^ nat (- s)"
    using s by (simp add: power_int_def inverse_eq_divide power_one_over)
  have "x / 2 powi s \<le> of_int k / 2 powi s"
    using assms(2) by (simp add: divide_right_mono)
  also have "\<dots> = of_int (k * 2 ^ nat (- s))" by (simp add: p2)
  finally have "round_half_even (x / 2 powi s) \<le> k * 2 ^ nat (- s)"
    by (rule round_half_even_le)
  then have "(of_int (round_half_even (x / 2 powi s)) :: rat) \<le> of_int (k * 2 ^ nat (- s))"
    by (simp only: of_int_le_iff)
  then have "of_int (round_half_even (x / 2 powi s)) * 2 powi s \<le> (of_int (k * 2 ^ nat (- s)) :: rat) * 2 powi s"
    by (intro mult_right_mono) simp_all
  also have "(of_int (k * 2 ^ nat (- s)) :: rat) * 2 powi s = of_int k" by (simp add: p2)
  finally show ?thesis
    by (simp only: round_to_double_pos [OF pos] s_def)
qed

lemma true_div_eqI:
  assumes "b \<noteq> 0" "0 < (of_int a / of_int b :: rat)"
    and "2 powi e \<le> (of_int a / of_int b :: rat)" "(of_int a / of_int b :: rat) < 2 powi (e + 1)"
    and "\<bar>(of_int a / of_int b :: rat) / 2 powi (max e (- 1022) - 52) - of_int m\<bar> < 1 / 2"
    and "\<bar>of_int m * 2 powi (max e (- 1022) - 52)\<bar> < float_limit"
  shows "true_div a b = Inr (of_int m * 2 powi (max e (- 1022) - 52))"
  using assms(1,6) round_to_double_eqI [OF assms(2-5)]
  by (simp add: true_div_def Let_def)

lemma round_half_even_numeral [simp]: "round_half_even (numeral n) = numeral n"
  by (rule round_half_even_eqI) simp

lemma round_half_even_0 [simp]: "round_half_even 0 = 0"
  by (rule round_half_even_eqI) simp

subsection \<open>The rounding error of a percentage\<close>

lemma round_to_double_upper:
  assumes "0 \<le> x"
  shows "round_to_double x \<le> x * (1 + 1 / 2 ^ 53) + 1 / 2 ^ 1075"
  using round_to_double_error_bound [OF assms] by (simp add: abs_le_iff algebra_simps)

lemma round_to_double_lower:
  assumes "0 \<le> x"
  shows "x * (1 - 1 / 2 ^ 53) - 1 / 2 ^ 1075 \<le> round_to_double x"
  using round_to_double_error_bound [OF assms] by (simp add: abs_le_iff algebra_simps)

lemma percentage_upper:
  assumes "0 \<le> x"
  shows "round_to_double (round_to_double x * 100)
           \<le> x * (100 * (1 + 1 / 2 ^ 53)\<^sup>2) + 201 / 2 ^ 1075"
proof -
  define U :: rat where "U = 1 + 1 / 2 ^ 53"
  define d :: rat where "d = 1 / 2 ^ 1075"
  define q where "q = round_to_double x"
  have U: "0 \<le> U" "U \<le> 2" and d: "0 \<le> d" by (simp_all add: U_def d_def)
  have q0: "0 \<le> q" unfolding q_def using assms by (rule round_to_double_nonneg)
  have q: "q \<le> x * U + d"
    unfolding q_def U_def d_def using assms by (rule round_to_double_upper)
  have "round_to_double (q * 100) \<le> q * 100 * U + d"
    unfolding U_def d_def using q0 by (intro round_to_double_upper) simp
  also have "q * 100 * U \<le> (x * U + d) * 100 * U"
    using q U(1) by (intro mult_right_mono) simp_all
  also have "(x * U + d) * 100 * U + d = x * (100 * U\<^sup>2) + (d * (100 * U) + d)"
    by (simp add: algebra_simps power2_eq_square)
  also have "d * (100 * U) \<le> d * 200"
    using U(2) d by (intro mult_left_mono) simp_all
  finally have "round_to_double (q * 100) \<le> x * (100 * U\<^sup>2) + 201 * d" by simp
  then show ?thesis by (simp add: q_def U_def d_def)
qed

lemma percentage_lower:
  assumes "0 \<le> x"
  shows "x * (100 * (1 - 1 / 2 ^ 53)\<^sup>2) - 101 / 2 ^ 1075
           \<le> round_to_double (round_to_double x * 100)"
proof -
  define L :: rat where "L = 1 - 1 / 2 ^ 53"
  define d :: rat where "d = 1 / 2 ^ 1075"
  define q where "q = round_to_double x"
  have L: "0 \<le> L" "L \<le> 1" and d: "0 \<le> d" by (simp_all add: L_def d_def)
  have q0: "0 \<le> q" unfolding q_def using assms by (rule round_to_double_nonneg)
  have q: "x * L - d \<le> q"
    unfolding q_def L_def d_def using assms by (rule round_to_double_lower)
  have "d * (100 * L) \<le> d * 100"
    using L(2) d by (intro mult_left_mono) simp_all
  then have "x * (100 * L\<^sup>2) - 101 * d \<le> (x * L - d) * 100 * L - d"
    by (simp add: algebra_simps power2_eq_square)
  also have "(x * L - d) * 100 * L \<le> q * 100 * L"
    using q L(1) by (intro mult_right_mono) simp_all
  also have "q * 100 * L - d \<le> round_to_double (q * 100)"
    unfolding L_def d_def using q0 by (intro round_to_double_lower) simp
  finally have "x * (100 * L\<^sup>2) - 101 * d \<le> round_to_double (q * 100)" by simp
  then show ?thesis by (simp add: q_def L_def d_def)
qed

text \<open>The bounds add up over a list of entries with counts \<open>c\<close> out of \<open>n\<close>.\<close>

lemma sum_list_upper:
  assumes "\<forall>e \<in> set es. f e \<le> A * of_nat (c e) + (B :: rat)"
  shows "sum_list (map f es) \<le> A * of_nat (sum_list (map c es)) + B * of_nat (length es)"
  using assms
proof (induction es)
  case Nil
  show ?case by simp
next
  case (Cons e es)
  then have "f e \<le> A * of_nat (c e) + B"
    and "sum_list (map f es) \<le> A * of_nat (sum_list (map c es)) + B * of_nat (length es)"
    by simp_all
  then show ?case by (simp add: algebra_simps)
qed

lemma sum_list_lower:
  assumes "\<forall>e \<in> set es. A * of_nat (c e) - (B :: rat) \<le> f e"
  shows "A * of_nat (sum_list (map c es)) - B * of_nat (length es) \<le> sum_list (map f es)"
  using assms
proof (induction es)
  case Nil
  show ?case by simp
next
  case (Cons e es)
  then have "A * of_nat (c e) - B \<le> f e"
    and "A * of_nat (sum_list (map c es)) - B * of_nat (length es) \<le> sum_list (map f es)"
    by simp_all
  then show ?case by (simp add: algebra_simps)
qed

lemma length_le_sum_counts:
  assumes "\<forall>e \<in> set es. 0 < (c e :: nat)"
  shows "length es \<le> sum_list (map c es)"
  using assms
proof (induction es)
  case Nil
  show ?case by simp
next
  case (Cons e es)
  then have "0 < c e" "length es \<le> sum_list (map c es)" by simp_all
  then show ?case by simp
qed

text \<open>Numbers: the relative error of two roundings, on the scale of a percentage.\<close>

lemma error_constants:
  "100 * (1 + 1 / 2 ^ 53)\<^sup>2 + 2010 / 2 ^ 1075 \<le> (100 + 1 / 10 ^ 13 :: rat)"
  "100 * (1 + 1 / 2 ^ 53)\<^sup>2 + 201 / 2 ^ 75 \<le> (100 + 1 / 10 ^ 13 :: rat)"
  "(100 - 1 / 10 ^ 13 :: rat) \<le> 100 * (1 - 1 / 2 ^ 53)\<^sup>2 - 101 / 2 ^ 75"
  by (simp_all add: power2_eq_square)

lemma percentage_close:
  assumes "0 \<le> x" "x \<le> 1"
  shows "\<bar>round_to_double (round_to_double x * 100) - x * 100\<bar> \<le> 1 / 10 ^ 13"
proof -
  define K :: rat where "K = 100 * (1 + 1 / 2 ^ 53)\<^sup>2"
  define K' :: rat where "K' = 100 * (1 - 1 / 2 ^ 53)\<^sup>2"
  define p where "p = round_to_double (round_to_double x * 100)"
  define eps :: rat where "eps = 1 / 10 ^ 13"
  have K: "0 \<le> K - 100" "K - 100 + 201 / 2 ^ 1075 \<le> eps"
    and K': "0 \<le> 100 - K'" "100 - K' + 101 / 2 ^ 1075 \<le> eps"
    by (simp_all add: K_def K'_def eps_def power2_eq_square)
  have up: "p \<le> x * K + 201 / 2 ^ 1075"
    unfolding p_def K_def using assms(1) by (rule percentage_upper)
  have lo: "x * K' - 101 / 2 ^ 1075 \<le> p"
    unfolding p_def K'_def using assms(1) by (rule percentage_lower)
  have "x * (K - 100) \<le> 1 * (K - 100)"
    using assms(2) K(1) by (rule mult_right_mono)
  with up K(2) have 1: "p - x * 100 \<le> eps" by (simp add: algebra_simps)
  have "x * (100 - K') \<le> 1 * (100 - K')"
    using assms(2) K'(1) by (rule mult_right_mono)
  with lo K'(2) have 2: "x * 100 - p \<le> eps" by (simp add: algebra_simps)
  from 1 2 have "\<bar>p - x * 100\<bar> \<le> eps" by (simp add: abs_le_iff)
  then show ?thesis by (simp only: p_def eps_def)
qed

lemma percentages_sum_upper:
  assumes "\<forall>e \<in> set es. pct e = round_to_double (round_to_double (of_nat (cnt e) / of_nat n) * 100)"
    and "0 < n" "sum_list (map cnt es) \<le> n"
  shows "sum_list (map pct es)
           \<le> 100 * (1 + 1 / 2 ^ 53)\<^sup>2 + 201 / 2 ^ 1075 * of_nat (length es)"
proof -
  define K :: rat where "K = 100 * (1 + 1 / 2 ^ 53)\<^sup>2"
  have K: "0 \<le> K" by (simp add: K_def)
  have "\<forall>e \<in> set es. pct e \<le> K / of_nat n * of_nat (cnt e) + 201 / 2 ^ 1075"
  proof
    fix e
    assume e: "e \<in> set es"
    have "0 \<le> (of_nat (cnt e) / of_nat n :: rat)" by simp
    from percentage_upper [OF this] assms(1) e
    have "pct e \<le> of_nat (cnt e) / of_nat n * K + 201 / 2 ^ 1075" by (simp add: K_def)
    then show "pct e \<le> K / of_nat n * of_nat (cnt e) + 201 / 2 ^ 1075" by (simp add: mult.commute)
  qed
  then have "sum_list (map pct es)
      \<le> K / of_nat n * of_nat (sum_list (map cnt es)) + 201 / 2 ^ 1075 * of_nat (length es)"
    by (rule sum_list_upper)
  also have "K / of_nat n * of_nat (sum_list (map cnt es)) \<le> K / of_nat n * of_nat n"
    using assms(3) K by (intro mult_left_mono) simp_all
  also have "K / of_nat n * of_nat n = K" using assms(2) by simp
  finally show ?thesis by (simp add: K_def)
qed

lemma percentages_sum_lower:
  assumes "\<forall>e \<in> set es. pct e = round_to_double (round_to_double (of_nat (cnt e) / of_nat n) * 100)"
    and "0 < n" "sum_list (map cnt es) = n"
  shows "100 * (1 - 1 / 2 ^ 53)\<^sup>2 - 101 / 2 ^ 1075 * of_nat (length es)
           \<le> sum_list (map pct es)"
proof -
  define K :: rat where "K = 100 * (1 - 1 / 2 ^ 53)\<^sup>2"
  have "\<forall>e \<in> set es. K / of_nat n * of_nat (cnt e) - 101 / 2 ^ 1075 \<le> pct e"
  proof
    fix e
    assume e: "e \<in> set es"
    have "0 \<le> (of_nat (cnt e) / of_nat n :: rat)" by simp
    from percentage_lower [OF this] assms(1) e
    have "of_nat (cnt e) / of_nat n * K - 101 / 2 ^ 1075 \<le> pct e" by (simp add: K_def)
    then show "K / of_nat n * of_nat (cnt e) - 101 / 2 ^ 1075 \<le> pct e" by (simp add: mult.commute)
  qed
  then have "K / of_nat n * of_nat (sum_list (map cnt es)) - 101 / 2 ^ 1075 * of_nat (length es)
      \<le> sum_list (map pct es)"
    by (rule sum_list_lower)
  moreover have "K / of_nat n * of_nat (sum_list (map cnt es)) = K"
    using assms(2,3) by simp
  ultimately show ?thesis by (simp add: K_def)
qed

section \<open>Counters and stable sorting\<close>

lemma first_index_snoc_old: "a \<in> set xs \<Longrightarrow> first_index (xs @ [x]) a = first_index xs a"
  by (simp add: first_index_def takeWhile_append1)

lemma first_index_less: "a \<in> set xs \<Longrightarrow> first_index xs a < length xs"
  unfolding first_index_def by (induction xs) auto

lemma first_index_snoc_new: "a \<notin> set xs \<Longrightarrow> first_index (xs @ [a]) a = length xs"
  unfolding first_index_def by (induction xs) auto

lemma Counter_snoc: "Counter (xs @ [x]) = counter_add x (Counter xs)"
  by (simp add: Counter_def)

lemma keys_counter_add_old:
  "x \<in> fst ` set c \<Longrightarrow> map fst (counter_add x c) = map fst c"
proof (induction c)
  case Nil
  then show ?case by simp
next
  case (Cons p c)
  obtain y n where p: "p = (y, n)" by (cases p)
  show ?case
  proof (cases "x = y")
    case True
    with p show ?thesis by simp
  next
    case False
    with Cons.prems p have "x \<in> fst ` set c" by auto
    with Cons.IH False p show ?thesis by simp
  qed
qed

lemma keys_counter_add_new:
  "x \<notin> fst ` set c \<Longrightarrow> map fst (counter_add x c) = map fst c @ [x]"
  by (induction c) auto

lemma map_of_counter_add:
  "map_of (counter_add x c) k =
     (if k = x then Some (case map_of c x of None \<Rightarrow> 1 | Some n \<Rightarrow> n + 1) else map_of c k)"
  by (induction c) auto

lemma sum_counter_add: "sum_list (map snd (counter_add x c)) = Suc (sum_list (map snd c))"
  by (induction c) auto

lemma keys_Counter: "set (map fst (Counter xs)) = set xs"
proof (induction xs rule: rev_induct)
  case Nil
  show ?case by (simp add: Counter_def)
next
  case (snoc x xs)
  show ?case
  proof (cases "x \<in> fst ` set (Counter xs)")
    case True
    with snoc show ?thesis
      unfolding Counter_snoc keys_counter_add_old [OF True] by auto
  next
    case False
    with snoc show ?thesis
      unfolding Counter_snoc keys_counter_add_new [OF False] by auto
  qed
qed

lemma distinct_keys_Counter: "distinct (map fst (Counter xs))"
proof (induction xs rule: rev_induct)
  case Nil
  show ?case by (simp add: Counter_def)
next
  case (snoc x xs)
  show ?case
  proof (cases "x \<in> fst ` set (Counter xs)")
    case True
    with snoc show ?thesis
      unfolding Counter_snoc keys_counter_add_old [OF True] by simp
  next
    case False
    with snoc show ?thesis
      unfolding Counter_snoc keys_counter_add_new [OF False] by simp
  qed
qed

lemma map_of_Counter:
  "map_of (Counter xs) k = (if k \<in> set xs then Some (count_list xs k) else None)"
proof (induction xs arbitrary: k rule: rev_induct)
  case Nil
  show ?case by (simp add: Counter_def)
next
  case (snoc x xs)
  then show ?case by (simp add: Counter_snoc map_of_counter_add)
qed

lemma Counter_count:
  assumes "(k, n) \<in> set (Counter xs)"
  shows "n = count_list xs k \<and> k \<in> set xs \<and> 0 < n"
proof -
  from assms have "map_of (Counter xs) k = Some n"
    using distinct_keys_Counter [of xs] by simp
  then have "k \<in> set xs" and n: "n = count_list xs k"
    by (simp_all add: map_of_Counter split: if_splits)
  moreover from \<open>k \<in> set xs\<close> have "0 < count_list xs k"
    by (induction xs) auto
  ultimately show ?thesis by simp
qed

lemma sum_Counter: "sum_list (map snd (Counter xs)) = length xs"
proof (induction xs rule: rev_induct)
  case Nil
  show ?case by (simp add: Counter_def)
next
  case (snoc x xs)
  then show ?case by (simp add: Counter_snoc sum_counter_add)
qed

lemma keys_Counter_first_seen:
  "sorted_wrt (\<lambda>a b. first_index xs a < first_index xs b) (map fst (Counter xs))"
proof (induction xs rule: rev_induct)
  case Nil
  show ?case by (simp add: Counter_def)
next
  case (snoc x xs)
  have old: "sorted_wrt (\<lambda>a b. first_index (xs @ [x]) a < first_index (xs @ [x]) b) (map fst (Counter xs))"
  proof (rule sorted_wrt_mono_rel [OF _ snoc.IH])
    fix a b
    assume "a \<in> set (map fst (Counter xs))" "b \<in> set (map fst (Counter xs))"
      and "first_index xs a < first_index xs b"
    then show "first_index (xs @ [x]) a < first_index (xs @ [x]) b"
      unfolding keys_Counter by (simp add: first_index_snoc_old)
  qed
  show ?case
  proof (cases "x \<in> set xs")
    case True
    then have "x \<in> fst ` set (Counter xs)" using keys_Counter [of xs] by simp
    then show ?thesis
      unfolding Counter_snoc using old by (simp only: keys_counter_add_old)
  next
    case False
    then have new: "x \<notin> fst ` set (Counter xs)" using keys_Counter [of xs] by simp
    have "\<forall>a \<in> set (map fst (Counter xs)). first_index (xs @ [x]) a < first_index (xs @ [x]) x"
      unfolding keys_Counter
      using False by (simp add: first_index_snoc_old first_index_snoc_new first_index_less)
    with old show ?thesis
      unfolding Counter_snoc keys_counter_add_new [OF new]
      by (simp only: sorted_wrt_append) simp
  qed
qed

lemma sorted_wrt_filter_nth:
  assumes "sorted_wrt R (filter P xs)" "i < j" "j < length xs" "P (xs ! i)" "P (xs ! j)"
  shows "R (xs ! i) (xs ! j)"
proof -
  have "filter P xs = filter P (take j xs @ xs ! j # drop (Suc j) xs)"
    by (rule arg_cong [OF id_take_nth_drop [OF assms(3)]])
  also have "\<dots> = filter P (take j xs) @ xs ! j # filter P (drop (Suc j) xs)"
    using assms(5) by simp
  finally have all: "\<forall>x \<in> set (filter P (take j xs)). R x (xs ! j)"
    using assms(1) by (simp add: sorted_wrt_append)
  have "i < length (take j xs)" using assms(2,3) by simp
  then have "take j xs ! i \<in> set (take j xs)" by (rule nth_mem)
  moreover have "take j xs ! i = xs ! i" using assms(2) by simp
  ultimately have "xs ! i \<in> set (take j xs)" by simp
  with all assms(4) show ?thesis by simp
qed

lemma sort_key_ties_keep_order:
  assumes "sorted_wrt R c" "i < j" "j < length c" "f (sort_key f c ! i) = f (sort_key f c ! j)"
  shows "R (sort_key f c ! i) (sort_key f c ! j)"
proof -
  define k where "k = f (sort_key f c ! j)"
  have "sorted_wrt R (filter (\<lambda>y. f y = k) c)"
    using assms(1) by (rule sorted_wrt_filter)
  then have "sorted_wrt R (filter (\<lambda>y. f y = k) (sort_key f c))"
    by (simp only: sort_key_stable)
  moreover have "j < length (sort_key f c)" using assms(3) by simp
  moreover have "f (sort_key f c ! i) = k" "f (sort_key f c ! j) = k"
    using assms(4) by (simp_all add: k_def)
  ultimately show ?thesis
    using assms(2) sorted_wrt_filter_nth [of R "\<lambda>y. f y = k" "sort_key f c" i j] by blast
qed

lemma sum_insort_key: "sum_list (map g (insort_key f x xs)) = g x + sum_list (map (g :: 'a \<Rightarrow> nat) xs)"
  by (induction xs) auto

lemma sum_sort_key: "sum_list (map g (sort_key f xs)) = sum_list (map (g :: 'a \<Rightarrow> nat) xs)"
  by (induction xs) (auto simp: sum_insort_key)

lemma distinct_keys_sort_key: "distinct (map fst (sort_key f c)) = distinct (map fst c)"
  by (simp add: distinct_map)

lemma sorted_by_count_desc_sorted:
  "sorted_wrt (\<ge>) (map snd (sorted_by_count_desc c))"
proof -
  have "sorted (map (\<lambda>p. - int (snd p)) (sorted_by_count_desc c))"
    unfolding sorted_by_count_desc_def by (rule sorted_sort_key)
  then show ?thesis
    by (simp add: sorted_wrt_map)
qed

section \<open>Statistics engine\<close>

lemma calculate_statistics_Inr:
  assumes "calculate_statistics s = Inr st"
  obtains avg_h avg tcs eds kwr top pct where
    "kols s \<noteq> []"
    "true_div (sum_list (map hIndex (kols s))) (int (length (kols s))) = Inr avg_h"
    "avg_citations_per_pub (kols s) = Inr avg"
    "map_result (country_entry (length (kols s))) (most_common 10 (Counter (map country (kols s)))) = Inr tcs"
    "map_result (expertise_entry (length (kols s))) (sorted_by_count_desc (Counter (map expertiseArea (kols s)))) = Inr eds"
    "map_result with_ratio (kols s) = Inr kwr"
    "py_max snd kwr = Inr top"
    "percentage_above_avg (snd top) avg = Inr pct"
    "topCountries st = tcs"
    "expertiseDistribution st = eds"
    "kol (topCitationRatioKOL st) = fst top"
    "ratio (topCitationRatioKOL st) = round_digits (snd top) 2"
    "percentageAboveAverage (topCitationRatioKOL st) = py_round pct 2"
    "totalKOLs st = length (kols s)"
    "totalPublications st = sum_list (map publicationsCount (kols s))"
    "countriesRepresented st = length (Counter (map country (kols s)))"
    "avgHIndex st = round_digits avg_h 1"
    "avgCitationsPerPublication st = round_digits avg 1"
  using assms
  unfolding calculate_statistics_def Let_def KOLStats_init_def TopCitationRatioKOL_init_def
  by (auto split: if_splits sum.splits prod.splits list.splits)

lemma map_result_Inr:
  "map_result f xs = Inr ys \<Longrightarrow> list_all2 (\<lambda>x y. f x = Inr y) xs ys"
  by (induction xs arbitrary: ys) (auto split: sum.splits)

lemma max_scan_first_maximum:
  "\<exists>pre post. b # xs = pre @ max_scan key b xs # post
      \<and> (\<forall>y \<in> set pre. key y < key (max_scan key b xs))
      \<and> (\<forall>y \<in> set post. key y \<le> key (max_scan key b xs))"
proof (induction xs arbitrary: b)
  case Nil
  show ?case by (rule exI [of _ "[]"]) simp
next
  case (Cons x xs)
  show ?case
  proof (cases "key x > key b")
    case True
    define m where "m = max_scan key x xs"
    from True have eq: "max_scan key b (x # xs) = m" by (simp add: m_def)
    from Cons.IH [of x] obtain pre post where
      split: "x # xs = pre @ m # post"
      and lt: "\<forall>y \<in> set pre. key y < key m"
      and le: "\<forall>y \<in> set post. key y \<le> key m"
      unfolding m_def by blast
    have "key x \<le> key m"
    proof (cases pre)
      case Nil
      with split show ?thesis by simp
    next
      case (Cons p pre')
      with split have "p = x" by simp
      with lt Cons show ?thesis by simp
    qed
    with True have "key b < key m" by simp
    with lt have lt': "\<forall>y \<in> set (b # pre). key y < key m" by simp
    have split': "b # x # xs = (b # pre) @ m # post" using split by simp
    show ?thesis unfolding eq
      by (rule exI [of _ "b # pre"], rule exI [of _ post]) (use split' lt' le in blast)
  next
    case False
    define m where "m = max_scan key b xs"
    from False have eq: "max_scan key b (x # xs) = m" by (simp add: m_def)
    from Cons.IH [of b] obtain pre post where
      split: "b # xs = pre @ m # post"
      and lt: "\<forall>y \<in> set pre. key y < key m"
      and le: "\<forall>y \<in> set post. key y \<le> key m"
      unfolding m_def by blast
    show ?thesis
    proof (cases pre)
      case Nil
      with split have m: "m = b" and post: "post = xs" by simp_all
      have 1: "b # x # xs = [] @ b # (x # xs)" by simp
      have 2: "\<forall>y \<in> set (x # xs). key y \<le> key b" using le False m post by auto
      show ?thesis unfolding eq m
        by (rule exI [of _ "[]"], rule exI [of _ "x # xs"]) (use 1 2 in simp)
    next
      case (Cons p pre')
      with split have p: "p = b" and xs: "xs = pre' @ m # post" by simp_all
      from lt Cons p have bm: "key b < key m" by simp
      have 1: "b # x # xs = (b # x # pre') @ m # post" using xs by simp
      have 2: "\<forall>y \<in> set (b # x # pre'). key y < key m"
        using lt Cons p bm False by auto
      show ?thesis unfolding eq
        by (rule exI [of _ "b # x # pre'"], rule exI [of _ post]) (use 1 2 le in blast)
    qed
  qed
qed

lemma py_max_Inr:
  assumes "py_max key xs = Inr m"
  shows "\<exists>pre post. xs = pre @ m # post \<and> (\<forall>y \<in> set pre. key y < key m) \<and> (\<forall>y \<in> set post. key y \<le> key m)"
proof (cases xs)
  case Nil
  with assms show ?thesis by simp
next
  case (Cons b ys)
  with assms have "m = max_scan key b ys" by simp
  with max_scan_first_maximum [of b ys key] Cons show ?thesis by simp
qed

lemma citation_ratio_Inr: "citation_ratio k = Inr r \<Longrightarrow> r = ratio_of k"
  unfolding citation_ratio_def ratio_of_def true_div_def Let_def
  by (simp split: if_splits)

lemma with_ratio_Inr: "map_result with_ratio ks = Inr kwr \<Longrightarrow>
    kwr = map (\<lambda>k. (k, ratio_of k)) ks \<and> (\<forall>k \<in> set ks. citation_ratio k = Inr (ratio_of k))"
proof (induction ks arbitrary: kwr)
  case Nil
  then show ?case by simp
next
  case (Cons k ks)
  from Cons.prems obtain p kwr' where p: "with_ratio k = Inr p"
    and rest: "map_result with_ratio ks = Inr kwr'" and kwr: "kwr = p # kwr'"
    by (auto split: sum.splits)
  from p obtain r where r: "citation_ratio k = Inr r" and pr: "p = (k, r)"
    by (auto simp: with_ratio_def split: sum.splits)
  from r have "r = ratio_of k" by (rule citation_ratio_Inr)
  with Cons.IH [OF rest] r kwr pr show ?case by simp
qed

lemma sorted_wrt_take_part: "sorted_wrt R xs \<Longrightarrow> sorted_wrt R (take n xs)"
proof -
  assume "sorted_wrt R xs"
  then have "sorted_wrt R (take n xs @ drop n xs)" by (simp only: append_take_drop_id)
  then show ?thesis by (simp only: sorted_wrt_append)
qed

lemma sum_list_take_le: "sum_list (take n xs) \<le> sum_list (xs :: nat list)"
proof -
  have "sum_list xs = sum_list (take n xs) + sum_list (drop n xs)"
    by (simp only: sum_list_append [symmetric] append_take_drop_id)
  then show ?thesis by linarith
qed

lemma Counter_first_seen:
  "sorted_wrt (\<lambda>p q. first_index xs (fst p) < first_index xs (fst q)) (Counter xs)"
  using keys_Counter_first_seen [of xs] by (simp only: sorted_wrt_map)

text \<open>The ranking of a counter: the items by falling count, cut to \<open>n\<close>.\<close>

lemma ranked_sorted:
  "sorted_wrt (\<ge>) (map snd (take n (sorted_by_count_desc c)))"
  unfolding take_map [symmetric]
  by (rule sorted_wrt_take_part) (rule sorted_by_count_desc_sorted)

lemma ranked_ties:
  assumes "ps = take n (sorted_by_count_desc (Counter xs))"
    and "i < j" "j < length ps" "snd (ps ! i) = snd (ps ! j)"
  shows "first_index xs (fst (ps ! i)) < first_index xs (fst (ps ! j))"
proof -
  let ?ss = "sort_key (\<lambda>p. - int (snd p)) (Counter xs)"
  have ps: "ps = take n ?ss" using assms(1) by (simp only: sorted_by_count_desc_def)
  from assms(3) have jn: "j < n" and jl: "j < length (Counter xs)" by (simp_all add: ps)
  with assms(2) have nth: "ps ! i = ?ss ! i" "ps ! j = ?ss ! j" by (simp_all add: ps)
  have "(\<lambda>p. - int (snd p)) (?ss ! i) = (\<lambda>p. - int (snd p)) (?ss ! j)"
    using assms(4) by (simp add: nth)
  with Counter_first_seen [of xs] assms(2) jl
  have "first_index xs (fst (?ss ! i)) < first_index xs (fst (?ss ! j))"
    by (rule sort_key_ties_keep_order)
  then show ?thesis by (simp only: nth)
qed

lemma ranked_count:
  assumes "(k, c) \<in> set (take n (sorted_by_count_desc (Counter xs)))"
  shows "c = count_list xs k \<and> k \<in> set xs \<and> 0 < c"
proof -
  from assms have "(k, c) \<in> set (sorted_by_count_desc (Counter xs))"
    using set_take_subset by fast
  then have "(k, c) \<in> set (Counter xs)" by (simp add: sorted_by_count_desc_def)
  then show ?thesis by (rule Counter_count)
qed

lemma ranked_distinct: "distinct (map fst (take n (sorted_by_count_desc (Counter xs))))"
  unfolding take_map [symmetric] sorted_by_count_desc_def
  by (rule distinct_take) (simp only: distinct_keys_sort_key distinct_keys_Counter)

lemma ranked_sum: "sum_list (map snd (take n (sorted_by_count_desc (Counter xs)))) \<le> length xs"
proof -
  have "sum_list (map snd (take n (sorted_by_count_desc (Counter xs))))
      \<le> sum_list (map snd (sorted_by_count_desc (Counter xs)))"
    unfolding take_map [symmetric] by (rule sum_list_take_le)
  also have "\<dots> = length xs"
    by (simp only: sorted_by_count_desc_def sum_sort_key sum_Counter)
  finally show ?thesis .
qed

lemma length_Counter: "length (Counter xs) = card (set xs)"
proof -
  have "length (Counter xs) = length (map fst (Counter xs))" by simp
  also have "\<dots> = card (set (map fst (Counter xs)))"
    by (rule distinct_card [symmetric]) (rule distinct_keys_Counter)
  also have "\<dots> = card (set xs)" by (simp only: keys_Counter)
  finally show ?thesis .
qed

lemma ranked_length:
  "length (take n (sorted_by_count_desc (Counter xs))) = min n (card (set xs))"
  by (simp add: sorted_by_count_desc_def length_Counter min.commute)

lemma ranked_most_frequent:
  assumes "(k, c) \<in> set (take n (sorted_by_count_desc (Counter xs)))"
    and "x \<in> set xs"
    and "x \<notin> set (map fst (take n (sorted_by_count_desc (Counter xs))))"
  shows "count_list xs x \<le> c"
proof -
  let ?ss = "sorted_by_count_desc (Counter xs)"
  from assms(2) have "map_of (Counter xs) x = Some (count_list xs x)"
    by (simp add: map_of_Counter)
  then have "(x, count_list xs x) \<in> set (Counter xs)" by (rule map_of_SomeD)
  then have "(x, count_list xs x) \<in> set ?ss" by (simp add: sorted_by_count_desc_def)
  then have "(x, count_list xs x) \<in> set (take n ?ss) \<union> set (drop n ?ss)"
    by (simp only: set_append [symmetric] append_take_drop_id)
  moreover have "(x, count_list xs x) \<notin> set (take n ?ss)"
  proof
    assume "(x, count_list xs x) \<in> set (take n ?ss)"
    then have "fst (x, count_list xs x) \<in> fst ` set (take n ?ss)" by (rule imageI)
    with assms(3) show False by simp
  qed
  ultimately have d: "(x, count_list xs x) \<in> set (drop n ?ss)" by simp
  define a where "a = take n ?ss"
  define b where "b = drop n ?ss"
  have "sorted_wrt (\<ge>) (map snd (a @ b))"
    unfolding a_def b_def by (simp only: append_take_drop_id) (rule sorted_by_count_desc_sorted)
  then have "\<forall>p \<in> set a. \<forall>q \<in> set b. snd q \<le> snd p"
    by (simp add: sorted_wrt_append)
  then have "\<forall>p \<in> set (take n ?ss). \<forall>q \<in> set (drop n ?ss). snd q \<le> snd p"
    by (simp only: a_def b_def)
  with assms(1) d have "snd (x, count_list xs x) \<le> snd (k, c)" by fast
  then show ?thesis by simp
qed

lemma ranked_all:
  "take (length (sorted_by_count_desc c)) (sorted_by_count_desc c) = sorted_by_count_desc c"
  by simp

lemma sorted_keys: "set (map fst (sorted_by_count_desc (Counter xs))) = set xs"
  using keys_Counter [of xs] by (simp add: sorted_by_count_desc_def)

lemma sorted_sum: "sum_list (map snd (sorted_by_count_desc (Counter xs))) = length xs"
  by (simp only: sorted_by_count_desc_def sum_sort_key sum_Counter)

text \<open>The entries built from a ranking carry its labels and counts.\<close>

lemma country_entry_Inr:
  assumes "country_entry tk p = Inr e"
  shows "cd_country e = fst p" "cd_count e = snd p"
    "percentage_of (snd p) tk = Inr (Finite (cd_percentage e))"
    "0 \<le> cd_percentage e" "cd_percentage e \<le> 100"
  using assms
  by (auto simp: country_entry_def percentage_field_def split: sum.splits pyfloat.splits if_splits)

lemma expertise_entry_Inr:
  assumes "expertise_entry tk p = Inr e"
  shows "ed_expertiseArea e = fst p" "ed_count e = snd p"
    "percentage_of (snd p) tk = Inr (Finite (ed_percentage e))"
    "0 \<le> ed_percentage e" "ed_percentage e \<le> 100"
  using assms
  by (auto simp: expertise_entry_def percentage_field_def split: sum.splits pyfloat.splits if_splits)

lemma country_entries:
  assumes "map_result (country_entry tk) ps = Inr tcs"
  shows "map (\<lambda>e. (cd_country e, cd_count e)) tcs = ps"
    and "\<forall>e \<in> set tcs. percentage_of (cd_count e) tk = Inr (Finite (cd_percentage e))"
  using assms
proof (induction ps arbitrary: tcs)
  case Nil
  { case 1 then show ?case by simp }
  { case 2 then show ?case by simp }
next
  case (Cons p ps)
  { case 1
    then obtain e es where e: "country_entry tk p = Inr e"
      and es: "map_result (country_entry tk) ps = Inr es" and tcs: "tcs = e # es"
      by (auto split: sum.splits)
    from Cons.IH(1) [OF es] country_entry_Inr(1,2) [OF e] tcs show ?case by simp }
  { case 2
    then obtain e es where e: "country_entry tk p = Inr e"
      and es: "map_result (country_entry tk) ps = Inr es" and tcs: "tcs = e # es"
      by (auto split: sum.splits)
    from Cons.IH(2) [OF es] country_entry_Inr(2,3) [OF e] tcs show ?case by simp }
qed

lemma expertise_entries:
  assumes "map_result (expertise_entry tk) ps = Inr eds"
  shows "map (\<lambda>e. (ed_expertiseArea e, ed_count e)) eds = ps"
    and "\<forall>e \<in> set eds. percentage_of (ed_count e) tk = Inr (Finite (ed_percentage e))"
  using assms
proof (induction ps arbitrary: eds)
  case Nil
  { case 1 then show ?case by simp }
  { case 2 then show ?case by simp }
next
  case (Cons p ps)
  { case 1
    then obtain e es where e: "expertise_entry tk p = Inr e"
      and es: "map_result (expertise_entry tk) ps = Inr es" and eds: "eds = e # es"
      by (auto split: sum.splits)
    from Cons.IH(1) [OF es] expertise_entry_Inr(1,2) [OF e] eds show ?case by simp }
  { case 2
    then obtain e es where e: "expertise_entry tk p = Inr e"
      and es: "map_result (expertise_entry tk) ps = Inr es" and eds: "eds = e # es"
      by (auto split: sum.splits)
    from Cons.IH(2) [OF es] expertise_entry_Inr(2,3) [OF e] eds show ?case by simp }
qed

lemma top_kol_first_maximum:
  assumes "calculate_statistics s = Inr stats"
  shows "(\<forall>k \<in> set (kols s). citation_ratio k = Inr (ratio_of k))
    \<and> (\<exists>pre post. kols s = pre @ kol (topCitationRatioKOL stats) # post
          \<and> (\<forall>k \<in> set pre. ratio_of k < ratio_of (kol (topCitationRatioKOL stats)))
          \<and> (\<forall>k \<in> set post. ratio_of k \<le> ratio_of (kol (topCitationRatioKOL stats))))
    \<and> ratio (topCitationRatioKOL stats)
         = round_digits (ratio_of (kol (topCitationRatioKOL stats))) 2"
proof -
  from assms obtain kwr top where
    kwr: "map_result with_ratio (kols s) = Inr kwr"
    and top: "py_max snd kwr = Inr top"
    and k: "kol (topCitationRatioKOL stats) = fst top"
    and r: "ratio (topCitationRatioKOL stats) = round_digits (snd top) 2"
    by (rule calculate_statistics_Inr)
  from with_ratio_Inr [OF kwr]
  have kwr_eq: "kwr = map (\<lambda>k. (k, ratio_of k)) (kols s)"
    and ratios: "\<forall>k \<in> set (kols s). citation_ratio k = Inr (ratio_of k)" by simp_all
  from py_max_Inr [OF top] obtain pre post where
    split: "kwr = pre @ top # post"
    and lt: "\<forall>y \<in> set pre. snd y < snd top"
    and le: "\<forall>y \<in> set post. snd y \<le> snd top" by blast
  have snd_eq: "snd y = ratio_of (fst y)" if "y \<in> set kwr" for y
    using that by (auto simp: kwr_eq)
  have top_in: "top \<in> set kwr" and pre_in: "set pre \<subseteq> set kwr" and post_in: "set post \<subseteq> set kwr"
    by (auto simp: split)
  have "map fst kwr = kols s" by (simp add: kwr_eq comp_def)
  then have 1: "kols s = map fst pre @ fst top # map fst post" by (simp add: split)
  have 2: "\<forall>k \<in> set (map fst pre). ratio_of k < ratio_of (fst top)"
    using lt pre_in top_in snd_eq by fastforce
  have 3: "\<forall>k \<in> set (map fst post). ratio_of k \<le> ratio_of (fst top)"
    using le post_in top_in snd_eq by fastforce
  have "\<exists>pre post. kols s = pre @ fst top # post
          \<and> (\<forall>k \<in> set pre. ratio_of k < ratio_of (fst top))
          \<and> (\<forall>k \<in> set post. ratio_of k \<le> ratio_of (fst top))"
    using 1 2 3 by blast
  moreover have "snd top = ratio_of (fst top)" using top_in by (rule snd_eq)
  ultimately show ?thesis using ratios r k by simp
qed

lemma top_countries_ranking:
  assumes "calculate_statistics s = Inr stats"
  shows "map (\<lambda>e. (cd_country e, cd_count e)) (topCountries stats)
           = take 10 (sorted_by_count_desc (Counter (map country (kols s))))"
    and "\<forall>e \<in> set (topCountries stats).
           percentage_of (cd_count e) (length (kols s)) = Inr (Finite (cd_percentage e))"
proof -
  from assms obtain tcs where
    tcs: "map_result (country_entry (length (kols s))) (most_common 10 (Counter (map country (kols s)))) = Inr tcs"
    and eq: "topCountries stats = tcs"
    by (rule calculate_statistics_Inr)
  from country_entries [OF tcs] eq
  show "map (\<lambda>e. (cd_country e, cd_count e)) (topCountries stats)
           = take 10 (sorted_by_count_desc (Counter (map country (kols s))))"
    and "\<forall>e \<in> set (topCountries stats).
           percentage_of (cd_count e) (length (kols s)) = Inr (Finite (cd_percentage e))"
    by (simp_all add: most_common_def)
qed

lemma expertise_ranking:
  assumes "calculate_statistics s = Inr stats"
  shows "map (\<lambda>e. (ed_expertiseArea e, ed_count e)) (expertiseDistribution stats)
           = sorted_by_count_desc (Counter (map expertiseArea (kols s)))"
    and "\<forall>e \<in> set (expertiseDistribution stats).
           percentage_of (ed_count e) (length (kols s)) = Inr (Finite (ed_percentage e))"
proof -
  from assms obtain eds where
    eds: "map_result (expertise_entry (length (kols s))) (sorted_by_count_desc (Counter (map expertiseArea (kols s)))) = Inr eds"
    and eq: "expertiseDistribution stats = eds"
    by (rule calculate_statistics_Inr)
  from expertise_entries [OF eds] eq
  show "map (\<lambda>e. (ed_expertiseArea e, ed_count e)) (expertiseDistribution stats)
           = sorted_by_count_desc (Counter (map expertiseArea (kols s)))"
    and "\<forall>e \<in> set (expertiseDistribution stats).
           percentage_of (ed_count e) (length (kols s)) = Inr (Finite (ed_percentage e))"
    by simp_all
qed

text \<open>What a list of entries inherits from the ranking it was built from.\<close>

lemma entries_of_ranking:
  assumes "map (\<lambda>e. (label e, cnt e)) es = take n (sorted_by_count_desc (Counter xs))"
  shows "sorted_wrt (\<ge>) (map cnt es)"
    and "\<forall>i j. i < j \<and> j < length es \<and> cnt (es ! i) = cnt (es ! j)
           \<longrightarrow> first_index xs (label (es ! i)) < first_index xs (label (es ! j))"
    and "\<forall>e \<in> set es. cnt e = count_list xs (label e) \<and> label e \<in> set xs"
    and "distinct (map label es)"
    and "sum_list (map cnt es) \<le> length xs"
    and "length es \<le> n"
proof -
  let ?ps = "take n (sorted_by_count_desc (Counter xs))"
  have cnt: "map cnt es = map snd ?ps" and lab: "map label es = map fst ?ps"
    by (simp_all add: assms [symmetric] comp_def)
  have len: "length es = length ?ps"
    using arg_cong [OF assms, of length] by simp
  have nth: "?ps ! i = (label (es ! i), cnt (es ! i))" if "i < length es" for i
    using that nth_map [of i es "\<lambda>e. (label e, cnt e)"] by (simp only: assms)
  show "sorted_wrt (\<ge>) (map cnt es)"
    unfolding cnt by (rule ranked_sorted)
  show "\<forall>i j. i < j \<and> j < length es \<and> cnt (es ! i) = cnt (es ! j)
           \<longrightarrow> first_index xs (label (es ! i)) < first_index xs (label (es ! j))"
  proof (intro allI impI, elim conjE)
    fix i j
    assume ij: "i < j" and j: "j < length es" and c: "cnt (es ! i) = cnt (es ! j)"
    from ij j have i: "i < length es" by simp
    from j have j': "j < length ?ps" by (simp only: len)
    have "snd (?ps ! i) = snd (?ps ! j)" using c by (simp add: nth i j)
    with ij j' have "first_index xs (fst (?ps ! i)) < first_index xs (fst (?ps ! j))"
      by (intro ranked_ties [OF refl])
    then show "first_index xs (label (es ! i)) < first_index xs (label (es ! j))"
      by (simp add: nth i j)
  qed
  show "\<forall>e \<in> set es. cnt e = count_list xs (label e) \<and> label e \<in> set xs"
  proof
    fix e
    assume "e \<in> set es"
    then have "(label e, cnt e) \<in> set (map (\<lambda>e. (label e, cnt e)) es)" by (simp only: set_map) (rule imageI)
    then have "(label e, cnt e) \<in> set ?ps" by (simp only: assms)
    from ranked_count [OF this] show "cnt e = count_list xs (label e) \<and> label e \<in> set xs" by simp
  qed
  show "distinct (map label es)"
    unfolding lab by (rule ranked_distinct)
  show "sum_list (map cnt es) \<le> length xs"
    unfolding cnt by (rule ranked_sum)
  show "length es \<le> n"
    by (simp add: len)
qed

lemma float_limit_pos: "0 < float_limit" "100 < float_limit" "1 < float_limit"
  by (simp_all add: float_limit_def)

lemma true_div_Inr:
  "true_div a b = Inr r \<Longrightarrow> b \<noteq> 0 \<and> r = round_to_double (of_int a / of_int b)"
  by (simp add: true_div_def Let_def split: if_splits)

lemma true_div_cases:
  "b \<noteq> 0 \<Longrightarrow> true_div a b = Inl OverflowError \<or> (\<exists>r. true_div a b = Inr r)"
  by (simp add: true_div_def Let_def)

lemma percentage_of_Inr:
  assumes "percentage_of c n = Inr (Finite p)"
  shows "p = round_to_double (round_to_double (of_nat c / of_nat n) * 100)"
proof -
  from assms obtain q where q: "true_div (int c) (int n) = Inr q"
    and p: "float_mul (Finite q) 100 = Finite p"
    by (auto simp: percentage_of_def split: sum.splits)
  from true_div_Inr [OF q] have "q = round_to_double (of_nat c / of_nat n)" by simp
  moreover from p have "p = round_to_double (q * 100)"
    by (simp add: to_float_def split: if_splits)
  ultimately show ?thesis by simp
qed

lemma percentage_of_ok:
  assumes "0 < c" "c \<le> n"
  shows "\<exists>p. percentage_of c n = Inr (Finite p) \<and> 0 \<le> p \<and> p \<le> 100"
proof -
  define x :: rat where "x = of_int (int c) / of_int (int n)"
  define q where "q = round_to_double x"
  define p where "p = round_to_double (q * 100)"
  from assms have n: "int n \<noteq> 0" by simp
  from assms have x: "0 \<le> x" "x \<le> of_int 1" "x < 2 ^ 53"
    by (simp_all add: x_def divide_le_eq_1 pos_divide_less_eq)
  have q0: "0 \<le> q" unfolding q_def using x(1) by (rule round_to_double_nonneg)
  have q1: "q \<le> 1" using round_to_double_le_int [OF x] by (simp add: q_def)
  from q0 q1 have "\<bar>q\<bar> < float_limit" using float_limit_pos by simp
  then have td: "true_div (int c) (int n) = Inr q"
    using n by (simp add: true_div_def Let_def q_def x_def)
  from q0 q1 have y: "0 \<le> q * 100" "q * 100 \<le> of_int 100" "q * 100 < 2 ^ 53" by simp_all
  have p0: "0 \<le> p" unfolding p_def using y(1) by (rule round_to_double_nonneg)
  have p1: "p \<le> 100" using round_to_double_le_int [OF y] by (simp add: p_def)
  from p0 p1 have "to_float p = Finite p" using float_limit_pos by (simp add: to_float_def)
  then have "percentage_of c n = Inr (Finite p)"
    by (simp add: percentage_of_def td p_def)
  with p0 p1 show ?thesis by blast
qed

lemma country_entry_ok:
  assumes "0 < snd p" "snd p \<le> n"
  shows "\<exists>e. country_entry n p = Inr e"
proof -
  from percentage_of_ok [OF assms] obtain r where
    "percentage_of (snd p) n = Inr (Finite r)" "0 \<le> r" "r \<le> 100" by blast
  then show ?thesis by (simp add: country_entry_def percentage_field_def)
qed

lemma expertise_entry_ok:
  assumes "0 < snd p" "snd p \<le> n"
  shows "\<exists>e. expertise_entry n p = Inr e"
proof -
  from percentage_of_ok [OF assms] obtain r where
    "percentage_of (snd p) n = Inr (Finite r)" "0 \<le> r" "r \<le> 100" by blast
  then show ?thesis by (simp add: expertise_entry_def percentage_field_def)
qed

lemma map_result_ok:
  assumes "\<forall>x \<in> set xs. \<exists>y. f x = Inr y"
  shows "\<exists>ys. map_result f xs = Inr ys"
  using assms
proof (induction xs)
  case Nil
  show ?case by simp
next
  case (Cons x xs)
  then obtain y ys where "f x = Inr y" "map_result f xs = Inr ys" by auto
  then show ?case by simp
qed

lemma ranking_counts:
  assumes "p \<in> set (take n (sorted_by_count_desc (Counter xs)))"
  shows "0 < snd p" "snd p \<le> length xs"
proof -
  from assms have "(fst p, snd p) \<in> set (take n (sorted_by_count_desc (Counter xs)))" by simp
  from ranked_count [OF this] show "0 < snd p" "snd p \<le> length xs"
    by (simp_all add: count_le_length)
qed

lemma top_countries_ok:
  "\<exists>tcs. map_result (country_entry (length xs)) (most_common 10 (Counter xs)) = Inr tcs"
  unfolding most_common_def
  by (rule map_result_ok) (blast intro: country_entry_ok ranking_counts)

lemma expertise_distribution_ok:
  "\<exists>eds. map_result (expertise_entry (length xs)) (sorted_by_count_desc (Counter xs)) = Inr eds"
proof -
  have "\<forall>p \<in> set (take (length (sorted_by_count_desc (Counter xs))) (sorted_by_count_desc (Counter xs))).
      \<exists>e. expertise_entry (length xs) p = Inr e"
    by (blast intro: expertise_entry_ok ranking_counts)
  then show ?thesis by (intro map_result_ok) simp
qed

lemma citation_ratio_Inl: "citation_ratio k = Inl e \<Longrightarrow> e = OverflowError"
  using true_div_cases [of "publicationsCount k" "citations k"]
  by (auto simp: citation_ratio_def split: if_splits)

lemma with_ratio_Inl:
  "map_result with_ratio ks = Inl e \<Longrightarrow>
     e = OverflowError \<and> (\<exists>k \<in> set ks. citation_ratio k = Inl OverflowError)"
proof (induction ks)
  case Nil
  then show ?case by simp
next
  case (Cons k ks)
  show ?case
  proof (cases "citation_ratio k")
    case (Inl e')
    then have "with_ratio k = Inl e'" by (simp add: with_ratio_def)
    with Cons.prems have "e' = e" by simp
    with Inl citation_ratio_Inl [of k e'] show ?thesis by simp
  next
    case (Inr r)
    then have "with_ratio k = Inr (k, r)" by (simp add: with_ratio_def)
    with Cons.prems have "map_result with_ratio ks = Inl e"
      by (simp split: sum.splits)
    from Cons.IH [OF this] show ?thesis by simp
  qed
qed

lemma percentage_above_avg_zero: "percentage_above_avg r 0 = Inl ZeroDivisionError"
  by (simp add: percentage_above_avg_def)

lemma statistics_with_zero_average:
  assumes ne: "kols s \<noteq> []" and avg: "avg_citations_per_pub (kols s) = Inr 0"
  shows "calculate_statistics s
           = Inl (if division_overflows s then OverflowError else ZeroDivisionError)"
proof -
  let ?n = "length (kols s)"
  from ne have n: "int ?n \<noteq> 0" by simp
  from top_countries_ok [of "map country (kols s)"] obtain tcs where
    tcs: "map_result (country_entry ?n) (most_common 10 (Counter (map country (kols s)))) = Inr tcs"
    by auto
  from expertise_distribution_ok [of "map expertiseArea (kols s)"] obtain eds where
    eds: "map_result (expertise_entry ?n) (sorted_by_count_desc (Counter (map expertiseArea (kols s)))) = Inr eds"
    by auto
  show ?thesis
  proof (cases "true_div (sum_list (map hIndex (kols s))) (int ?n)")
    case (Inl e)
    with true_div_cases [OF n, of "sum_list (map hIndex (kols s))"]
    have e: "true_div (sum_list (map hIndex (kols s))) (int ?n) = Inl OverflowError" by auto
    then have "division_overflows s" by (simp add: division_overflows_def)
    moreover have "calculate_statistics s = Inl OverflowError"
      by (simp add: calculate_statistics_def ne e)
    ultimately show ?thesis by simp
  next
    case (Inr a)
    show ?thesis
    proof (cases "map_result with_ratio (kols s)")
      case (Inl e)
      from with_ratio_Inl [OF Inl] have e: "e = OverflowError"
        and ex: "\<exists>k \<in> set (kols s). citation_ratio k = Inl OverflowError" by simp_all
      from ex have "division_overflows s" by (simp add: division_overflows_def)
      moreover have "calculate_statistics s = Inl OverflowError"
        by (simp add: calculate_statistics_def Let_def ne Inr avg tcs eds Inl e)
      ultimately show ?thesis by simp
    next
      case kwr: (Inr kwr)
      from with_ratio_Inr [OF kwr] have all: "\<forall>k \<in> set (kols s). citation_ratio k = Inr (ratio_of k)"
        and kwr_eq: "kwr = map (\<lambda>k. (k, ratio_of k)) (kols s)" by simp_all
      from kwr_eq ne obtain top where top: "py_max snd kwr = Inr top"
        by (cases "kols s") simp_all
      have "\<not> division_overflows s"
        using all Inr by (auto simp: division_overflows_def)
      moreover have "calculate_statistics s = Inl ZeroDivisionError"
        by (simp add: calculate_statistics_def Let_def ne Inr avg tcs eds kwr top
            percentage_above_avg_zero split: prod.splits)
      ultimately show ?thesis by simp
    qed
  qed
qed

lemma count_list_pos: "x \<in> set xs \<Longrightarrow> 0 < count_list xs x"
  using count_list_0_iff [of xs x] by simp

lemma statistics_total:
  assumes "calculate_statistics s = Inr stats"
  shows "totalKOLs stats = length (kols s)" "0 < length (kols s)"
proof -
  have "kols s \<noteq> [] \<and> totalKOLs stats = length (kols s)"
    using assms by (rule calculate_statistics_Inr) (rule conjI)
  then show "totalKOLs stats = length (kols s)" "0 < length (kols s)" by simp_all
qed


section \<open>The statistics of the fixture\<close>

lemma rd_third: "round_to_double (1 / 3) = 6004799503160661 / 18014398509481984"
  using round_to_double_eqI [of "1 / 3" "- 2" 6004799503160661] by simp

lemma td_third: "true_div 1 3 = Inr (6004799503160661 / 18014398509481984)"
  using true_div_eqI [of 3 1 "- 2" 6004799503160661] by (simp add: float_limit_def)

lemma td_16_3: "true_div 16 3 = Inr (6004799503160661 / 1125899906842624)"
  using true_div_eqI [of 3 16 2 6004799503160661] by (simp add: float_limit_def)

lemma td_10: "true_div 100 10 = Inr 10" "true_div 200 20 = Inr 10" "true_div 50 5 = Inr 10" "true_div 350 35 = Inr 10"
  using true_div_eqI [of 10 100 3 5629499534213120] true_div_eqI [of 20 200 3 5629499534213120]
    true_div_eqI [of 5 50 3 5629499534213120] true_div_eqI [of 35 350 3 5629499534213120]
  by (simp_all add: float_limit_def)

lemma rd_pct: "round_to_double (6004799503160661 / 18014398509481984 * 100) = 2345624805922133 / 70368744177664"
  using round_to_double_eqI [of "6004799503160661 / 18014398509481984 * 100" 5 4691249611844266] by simp

lemma rh_53: "round_half_even (6004799503160661 / 1125899906842624 * 10 ^ 1) = 53"
  by (rule round_half_even_eqI) simp

lemma rd_5_3: "round_to_double (53 / 10) = 5967269506265907 / 1125899906842624"
  using round_to_double_eqI [of "53 / 10" 2 5967269506265907] by simp

lemma rd_10: "round_to_double 10 = 10"
  using round_to_double_eqI [of 10 3 5629499534213120] by simp

lemma rh_53': "round_half_even (30023997515803305 / 562949953421312) = 53"
  by (rule round_half_even_eqI) simp

lemma rd_pct': "round_to_double (150119987579016525 / 4503599627370496) = 2345624805922133 / 70368744177664"
  using rd_pct by simp

lemma round_digits_values:
  "round_digits 10 2 = 10" "round_digits 10 (Suc 0) = 10" "round_digits 0 2 = 0"
  "round_digits (6004799503160661 / 1125899906842624) (Suc 0) = 5967269506265907 / 1125899906842624"
  by (simp_all add: round_digits_def rh_53' rd_10 rd_5_3 round_to_double_def [of 0])

lemma percentage_of_third: "percentage_of (Suc 0) 3 = Inr (Finite (2345624805922133 / 70368744177664))"
  by (simp add: percentage_of_def td_third rd_pct' to_float_def float_limit_def)

lemma percentage_above_avg_10: "percentage_above_avg 10 10 = Inr (Finite 0)"
  by (simp add: percentage_above_avg_def float_sub_def to_float_def float_limit_def round_to_double_def)

lemma fixture_kols: "kols fixture = [kol_of_item item_a, kol_of_item item_b, kol_of_item item_c]"
  by (simp add: fixture_def store_of_def)

lemma fixture_fields:
  "map country (kols fixture) = [''United States'', ''France'', ''Japan'']"
  "map expertiseArea (kols fixture) = [''Dermatology'', ''Vitiligo'', ''Immunology'']"
  "map hIndex (kols fixture) = [5, 8, 3]"
  "map publicationsCount (kols fixture) = [10, 20, 5]"
  "map citations (kols fixture) = [100, 200, 50]"
  by (simp_all add: fixture_kols kol_of_item_def item_a_def item_b_def item_c_def)

lemma fixture_counters:
  "Counter [''United States'', ''France'', ''Japan'']
     = [(''United States'', Suc 0), (''France'', Suc 0), (''Japan'', Suc 0)]"
  "Counter [''Dermatology'', ''Vitiligo'', ''Immunology'']
     = [(''Dermatology'', Suc 0), (''Vitiligo'', Suc 0), (''Immunology'', Suc 0)]"
  by (simp_all add: Counter_def)

lemma fixture_sorted:
  "sorted_by_count_desc [(a, Suc 0), (b, Suc 0), (c, Suc 0)] = [(a, Suc 0), (b, Suc 0), (c, Suc 0)]"
  by (simp add: sorted_by_count_desc_def)

lemma fixture_ratios:
  "map_result with_ratio (kols fixture)
     = Inr [(kol_of_item item_a, 10), (kol_of_item item_b, 10), (kol_of_item item_c, 10)]"
  by (simp add: fixture_kols with_ratio_def citation_ratio_def kol_of_item_def
      item_a_def item_b_def item_c_def td_10)

lemma fixture_statistics: "calculate_statistics fixture = Inr fixture_stats"
proof -
  have len: "length (kols fixture) = 3" "kols fixture \<noteq> []" by (simp_all add: fixture_kols)
  have avg: "avg_citations_per_pub (kols fixture) = Inr 10"
    by (simp add: avg_citations_per_pub_def fixture_fields td_10)
  have tc: "map_result (country_entry 3) (most_common 10 (Counter (map country (kols fixture))))
      = Inr [\<lparr> cd_country = ''United States'', cd_count = 1, cd_percentage = 2345624805922133 / 70368744177664 \<rparr>,
          \<lparr> cd_country = ''France'', cd_count = 1, cd_percentage = 2345624805922133 / 70368744177664 \<rparr>,
          \<lparr> cd_country = ''Japan'', cd_count = 1, cd_percentage = 2345624805922133 / 70368744177664 \<rparr>]"
    by (simp add: fixture_fields fixture_counters most_common_def fixture_sorted country_entry_def
        percentage_of_third percentage_field_def)
  have ed: "map_result (expertise_entry 3) (sorted_by_count_desc (Counter (map expertiseArea (kols fixture))))
      = Inr [\<lparr> ed_expertiseArea = ''Dermatology'', ed_count = 1, ed_percentage = 2345624805922133 / 70368744177664 \<rparr>,
          \<lparr> ed_expertiseArea = ''Vitiligo'', ed_count = 1, ed_percentage = 2345624805922133 / 70368744177664 \<rparr>,
          \<lparr> ed_expertiseArea = ''Immunology'', ed_count = 1, ed_percentage = 2345624805922133 / 70368744177664 \<rparr>]"
    by (simp add: fixture_fields fixture_counters fixture_sorted expertise_entry_def
        percentage_of_third percentage_field_def)
  have cr: "length (Counter (map country (kols fixture))) = 3"
    by (simp add: fixture_fields fixture_counters)
  show ?thesis
    unfolding calculate_statistics_def Let_def len avg tc ed cr fixture_ratios
    by (simp add: fixture_stats_def len fixture_fields td_16_3 percentage_above_avg_10 round_digits_values
        TopCitationRatioKOL_init_def KOLStats_init_def nonneg_field_def)
qed

lemma fixture_ratio_of: "map ratio_of (kols fixture) = [10, 10, 10]"
proof -
  let ?kwr = "[(kol_of_item item_a, 10 :: rat), (kol_of_item item_b, 10), (kol_of_item item_c, 10)]"
  from with_ratio_Inr [OF fixture_ratios]
  have "?kwr = map (\<lambda>k. (k, ratio_of k)) (kols fixture)" by (rule conjunct1)
  then have "map snd ?kwr = map snd (map (\<lambda>k. (k, ratio_of k)) (kols fixture))"
    by (rule arg_cong)
  then show ?thesis by (simp add: comp_def)
qed

lemma fixture_stats_top:
  "kol (topCitationRatioKOL fixture_stats) = kol_of_item item_a"
  "ratio (topCitationRatioKOL fixture_stats) = 10"
  by (simp_all add: fixture_stats_def)

subsection \<open>The records without publications and beyond the float range\<close>

lemma true_div_zero: "b \<noteq> 0 \<Longrightarrow> true_div 0 b = Inr 0"
  by (simp add: true_div_def round_to_double_def float_limit_def)

lemma huge_int_pos: "0 < huge_int" "huge_int \<noteq> 0" "\<not> huge_int < 0"
  by (simp_all add: huge_int_def)

lemma true_div_huge: "true_div huge_int 1 = Inl OverflowError"
proof -
  have "round_to_double (2 ^ 1024) = of_int (2 ^ 52) * 2 powi (max 1024 (- 1022) - 52)"
    by (rule round_to_double_eqI) simp_all
  then have "round_to_double (2 ^ 1024) = 2 ^ 1024" by simp
  then show ?thesis by (simp add: true_div_def float_limit_def huge_int_def)
qed

lemma huge_fields:
  "hIndex (kol_of_item item_huge) = huge_int"
  "publicationsCount (kol_of_item item_huge) = huge_int"
  "citations (kol_of_item item_huge) = 0"
  by (simp_all add: kol_of_item_def item_huge_def)

lemma huge_kols: "kols (store_of [item_huge]) = [kol_of_item item_huge]"
  by (simp add: store_of_def)

lemma huge_loads: "load_data (JsonArray [item_huge]) = Inr (store_of [item_huge])"
  by (simp add: load_data_def store_of_def KOL_init_def field_checks item_huge_def huge_int_pos)

lemma huge_average: "avg_citations_per_pub (kols (store_of [item_huge])) = Inr 0"
  unfolding avg_citations_per_pub_def Let_def huge_kols
  by (simp add: huge_fields huge_int_pos true_div_zero)

lemma huge_statistics: "calculate_statistics (store_of [item_huge]) = Inl OverflowError"
  by (simp add: calculate_statistics_def huge_kols huge_fields true_div_huge)


lemma unpublished_kols:
  "kols (store_of [item_unpublished]) = [kol_of_item item_unpublished]"
  "hIndex (kol_of_item item_unpublished) = 0"
  "publicationsCount (kol_of_item item_unpublished) = 0"
  "citation_ratio (kol_of_item item_unpublished) = Inr 0"
  by (simp_all add: store_of_def kol_of_item_def item_unpublished_def citation_ratio_def)

subsection \<open>A panel from eleven countries\<close>

text \<open>
  Sixteen records from eleven countries: ten countries with one record each, met first,
  and one with six, met last.  The ranking puts the last country first and drops the
  tenth of the others.
\<close>

lemma panel_countries:
  "map country (kols panel) =
     [''Argentina'', ''Belgium'', ''Canada'', ''Denmark'', ''Egypt'', ''Finland'', ''Greece'',
      ''Hungary'', ''India'', ''Japan'', ''Kenya'', ''Kenya'', ''Kenya'', ''Kenya'', ''Kenya'',
      ''Kenya'']"
  by (simp add: panel_def store_of_def kol_of_item_def member_def)

lemma panel_fields:
  "map expertiseArea (kols panel) = replicate 16 ''Dermatology''"
  "map hIndex (kols panel) = replicate 16 4"
  "map publicationsCount (kols panel) = replicate 16 10"
  "map citations (kols panel) = replicate 16 100"
  "length (kols panel) = 16" "kols panel \<noteq> []"
  by (simp_all add: panel_def store_of_def kol_of_item_def member_def numeral_eq_Suc)

lemma panel_counter:
  "Counter (map country (kols panel)) =
     [(''Argentina'', 1), (''Belgium'', 1), (''Canada'', 1), (''Denmark'', 1), (''Egypt'', 1),
      (''Finland'', 1), (''Greece'', 1), (''Hungary'', 1), (''India'', 1), (''Japan'', 1),
      (''Kenya'', 6)]"
  unfolding panel_countries by (simp add: Counter_def)

lemma panel_ranking:
  "most_common 10 (Counter (map country (kols panel))) =
     [(''Kenya'', 6), (''Argentina'', 1), (''Belgium'', 1), (''Canada'', 1), (''Denmark'', 1),
      (''Egypt'', 1), (''Finland'', 1), (''Greece'', 1), (''Hungary'', 1), (''India'', 1)]"
  unfolding panel_counter by (simp add: most_common_def sorted_by_count_desc_def)

lemma panel_expertise:
  "sorted_by_count_desc (Counter (map expertiseArea (kols panel))) = [(''Dermatology'', 16)]"
  by (simp add: panel_fields(1) numeral_eq_Suc Counter_def sorted_by_count_desc_def)


lemma panel_divisions:
  "true_div 64 16 = Inr 4" "true_div 1600 160 = Inr 10"
  "true_div 6 16 = Inr (3 / 8)" "true_div 1 16 = Inr (1 / 16)" "true_div 16 16 = Inr 1"
  using true_div_eqI [of 16 64 2 4503599627370496] true_div_eqI [of 160 1600 3 5629499534213120]
    true_div_eqI [of 16 6 "- 2" 6755399441055744] true_div_eqI [of 16 1 "- 4" 4503599627370496]
    true_div_eqI [of 16 16 0 4503599627370496]
  by (simp_all add: float_limit_def)

lemma panel_products:
  "round_to_double (75 / 2) = 75 / 2" "round_to_double (25 / 4) = 25 / 4"
  "round_to_double 100 = 100" "round_to_double 4 = 4"
  using round_to_double_eqI [of "75 / 2" 5 5277655813324800]
    round_to_double_eqI [of "25 / 4" 2 7036874417766400]
    round_to_double_eqI [of 100 6 7036874417766400]
    round_to_double_eqI [of 4 2 4503599627370496]
  by simp_all

lemma panel_percentages:
  "percentage_of 6 16 = Inr (Finite (75 / 2))"
  "percentage_of (Suc 0) 16 = Inr (Finite (25 / 4))"
  "percentage_of 16 16 = Inr (Finite 100)"
  by (simp_all add: percentage_of_def panel_divisions panel_products to_float_def float_limit_def)

lemma panel_round_digits: "round_digits 4 (Suc 0) = 4"
  by (simp add: round_digits_def panel_products)

lemma panel_ratios:
  "map_result with_ratio (kols panel) = Inr (map (\<lambda>k. (k, 10)) (kols panel))"
  by (simp add: panel_def store_of_def with_ratio_def citation_ratio_def kol_of_item_def
      member_def td_10)

lemma panel_max:
  "py_max snd (map (\<lambda>k. (k, 10 :: rat)) (kols panel)) = Inr (kol_of_item (member ''1'' ''Argentina''), 10)"
  by (simp add: panel_def store_of_def)

lemma panel_statistics: "calculate_statistics panel = Inr panel_stats"
proof -
  have avg: "avg_citations_per_pub (kols panel) = Inr 10"
    by (simp add: avg_citations_per_pub_def panel_fields sum_list_replicate panel_divisions)
  have ah: "true_div (sum_list (map hIndex (kols panel))) 16 = Inr 4"
    by (simp add: panel_fields sum_list_replicate panel_divisions)
  have tp: "sum_list (map publicationsCount (kols panel)) = 160"
    by (simp add: panel_fields sum_list_replicate)
  have tc: "map_result (country_entry 16) (most_common 10 (Counter (map country (kols panel))))
      = Inr (topCountries panel_stats)"
    unfolding panel_ranking
    by (simp add: country_entry_def panel_percentages percentage_field_def panel_stats_def
        one_of_sixteen_def)
  have ed: "map_result (expertise_entry 16) (sorted_by_count_desc (Counter (map expertiseArea (kols panel))))
      = Inr (expertiseDistribution panel_stats)"
    unfolding panel_expertise
    by (simp add: expertise_entry_def panel_percentages percentage_field_def panel_stats_def)
  have cr: "length (Counter (map country (kols panel))) = 11"
    by (simp add: panel_counter)
  show ?thesis
    unfolding calculate_statistics_def Let_def panel_fields(5) avg tp tc ed cr panel_ratios panel_max
    by (simp add: ah panel_max panel_fields(6) percentage_above_avg_10 round_digits_values panel_round_digits
        TopCitationRatioKOL_init_def KOLStats_init_def nonneg_field_def panel_stats_def
        one_of_sixteen_def)
qed

section \<open>Properties of the statistics\<close>

text \<open>
  Claim C4: on an empty record set \<open>calculate_statistics\<close> raises the error that reports
  the absence of data (a \<open>ValueError\<close> with that message), and returns no statistics.
\<close>

theorem calculate_statistics_empty:
  "calculate_statistics (store_of [])
     = Inl (ValueError ''No KOL data available for statistics calculation'')
   \<and> (\<forall>stats. calculate_statistics (store_of []) \<noteq> Inr stats)"
  by (simp add: calculate_statistics_def store_of_def)

text \<open>
  Claim C1: whenever \<open>calculate_statistics\<close> returns, every record was given the ratio
  \<open>citations / publicationsCount\<close> (0 where the count is not positive), and the record
  of \<open>topCitationRatioKOL\<close> is the first one of the sequence whose ratio is maximal:
  every record before it has a strictly smaller ratio and no record after it a greater
  one.  On the fixture the three ratios are 10 and the first record is selected.
\<close>

theorem top_citation_ratio_is_first_maximum:
  "(\<forall>s stats. calculate_statistics s = Inr stats \<longrightarrow>
      (\<forall>k \<in> set (kols s). citation_ratio k = Inr (ratio_of k))
    \<and> (\<exists>pre post. kols s = pre @ kol (topCitationRatioKOL stats) # post
          \<and> (\<forall>k \<in> set pre. ratio_of k < ratio_of (kol (topCitationRatioKOL stats)))
          \<and> (\<forall>k \<in> set post. ratio_of k \<le> ratio_of (kol (topCitationRatioKOL stats))))
    \<and> ratio (topCitationRatioKOL stats)
         = round_digits (ratio_of (kol (topCitationRatioKOL stats))) 2)
   \<and> (\<exists>stats. calculate_statistics fixture = Inr stats
         \<and> map ratio_of (kols fixture) = [10, 10, 10]
         \<and> kol (topCitationRatioKOL stats) = hd (kols fixture))"
proof -
  note fixture_ratio_of
  moreover have "kol_of_item item_a = hd (kols fixture)" by (simp add: fixture_kols)
  ultimately show ?thesis
    using top_kol_first_maximum fixture_statistics fixture_stats_top by simp
qed

theorem top_citation_ratio_is_first_maximum_witness:
  "calculate_statistics fixture \<noteq> Inl ZeroDivisionError
   \<and> (\<exists>stats. calculate_statistics fixture = Inr stats
        \<and> kols fixture = [] @ kol (topCitationRatioKOL stats) # tl (kols fixture)
        \<and> ratio (topCitationRatioKOL stats) = 10)"
proof -
  from top_citation_ratio_is_first_maximum
  obtain stats where st: "calculate_statistics fixture = Inr stats"
    and top: "kol (topCitationRatioKOL stats) = hd (kols fixture)" by blast
  from top_citation_ratio_is_first_maximum st
  have "ratio (topCitationRatioKOL stats) = round_digits (ratio_of (kol (topCitationRatioKOL stats))) 2"
    by blast
  moreover have "ratio_of (hd (kols fixture)) = 10"
    using fixture_ratio_of by (simp add: fixture_kols)
  ultimately have "ratio (topCitationRatioKOL stats) = 10"
    by (simp add: top round_digits_values)
  with st top show ?thesis by (simp add: fixture_kols)
qed

text \<open>
  Claim C7: whenever \<open>calculate_statistics\<close> returns, \<open>topCountries\<close> and
  \<open>expertiseDistribution\<close> are ordered by falling count, each count being the number
  of records that carry the label; of two entries with equal counts the one whose label
  is encountered first in the record set comes first; and \<open>expertiseDistribution\<close> has
  exactly one entry for every distinct expertiseArea.
\<close>

theorem distributions_ordered_by_count_ties_first_seen:
  assumes "calculate_statistics s = Inr stats"
  shows "sorted_wrt (\<ge>) (map cd_count (topCountries stats))
    \<and> (\<forall>i j. i < j \<and> j < length (topCountries stats)
            \<and> cd_count (topCountries stats ! i) = cd_count (topCountries stats ! j)
          \<longrightarrow> first_index (map country (kols s)) (cd_country (topCountries stats ! i))
                < first_index (map country (kols s)) (cd_country (topCountries stats ! j)))
    \<and> (\<forall>e \<in> set (topCountries stats).
          cd_count e = count_list (map country (kols s)) (cd_country e))
    \<and> sorted_wrt (\<ge>) (map ed_count (expertiseDistribution stats))
    \<and> (\<forall>i j. i < j \<and> j < length (expertiseDistribution stats)
            \<and> ed_count (expertiseDistribution stats ! i) = ed_count (expertiseDistribution stats ! j)
          \<longrightarrow> first_index (map expertiseArea (kols s)) (ed_expertiseArea (expertiseDistribution stats ! i))
                < first_index (map expertiseArea (kols s)) (ed_expertiseArea (expertiseDistribution stats ! j)))
    \<and> (\<forall>e \<in> set (expertiseDistribution stats).
          ed_count e = count_list (map expertiseArea (kols s)) (ed_expertiseArea e))
    \<and> set (map ed_expertiseArea (expertiseDistribution stats)) = set (map expertiseArea (kols s))
    \<and> distinct (map ed_expertiseArea (expertiseDistribution stats))"
proof -
  note tc = entries_of_ranking [OF top_countries_ranking(1) [OF assms]]
  have "map (\<lambda>e. (ed_expertiseArea e, ed_count e)) (expertiseDistribution stats)
      = take (length (sorted_by_count_desc (Counter (map expertiseArea (kols s)))))
          (sorted_by_count_desc (Counter (map expertiseArea (kols s))))"
    using expertise_ranking(1) [OF assms] by simp
  note ed = entries_of_ranking [OF this]
  have "map ed_expertiseArea (expertiseDistribution stats)
      = map fst (map (\<lambda>e. (ed_expertiseArea e, ed_count e)) (expertiseDistribution stats))"
    by (simp add: comp_def)
  then have keys: "set (map ed_expertiseArea (expertiseDistribution stats)) = set (map expertiseArea (kols s))"
    by (simp only: expertise_ranking(1) [OF assms] sorted_keys)
  from tc(1) tc(2) tc(3) ed(1) ed(2) ed(3) keys ed(4) show ?thesis
    by blast
qed

theorem distributions_ordered_by_count_ties_first_seen_witness:
  "calculate_statistics fixture = Inr fixture_stats
   \<and> map cd_country (topCountries fixture_stats) = map country (kols fixture)
   \<and> map cd_count (topCountries fixture_stats) = [1, 1, 1]
   \<and> first_index (map country (kols fixture)) (cd_country (topCountries fixture_stats ! 0))
       < first_index (map country (kols fixture)) (cd_country (topCountries fixture_stats ! 1))
   \<and> first_index (map country (kols fixture)) (cd_country (topCountries fixture_stats ! 1))
       < first_index (map country (kols fixture)) (cd_country (topCountries fixture_stats ! 2))
   \<and> set (map ed_expertiseArea (expertiseDistribution fixture_stats))
       = {''Dermatology'', ''Vitiligo'', ''Immunology''}"
proof -
  note r = distributions_ordered_by_count_ties_first_seen [OF fixture_statistics]
  have len: "length (topCountries fixture_stats) = 3"
    and cnt: "map cd_count (topCountries fixture_stats) = [1, 1, 1]"
    and lab: "map cd_country (topCountries fixture_stats) = map country (kols fixture)"
    by (simp_all add: fixture_stats_def fixture_fields)
  from r have ties: "\<And>i j. i < j \<Longrightarrow> j < length (topCountries fixture_stats)
      \<Longrightarrow> cd_count (topCountries fixture_stats ! i) = cd_count (topCountries fixture_stats ! j)
      \<Longrightarrow> first_index (map country (kols fixture)) (cd_country (topCountries fixture_stats ! i))
                < first_index (map country (kols fixture)) (cd_country (topCountries fixture_stats ! j))"
    by blast
  have 01: "first_index (map country (kols fixture)) (cd_country (topCountries fixture_stats ! 0))
       < first_index (map country (kols fixture)) (cd_country (topCountries fixture_stats ! 1))"
    by (rule ties) (simp_all add: fixture_stats_def)
  have 12: "first_index (map country (kols fixture)) (cd_country (topCountries fixture_stats ! 1))
       < first_index (map country (kols fixture)) (cd_country (topCountries fixture_stats ! 2))"
    by (rule ties) (simp_all add: fixture_stats_def)
  from r have "set (map ed_expertiseArea (expertiseDistribution fixture_stats))
      = set (map expertiseArea (kols fixture))" by blast
  then have "set (map ed_expertiseArea (expertiseDistribution fixture_stats))
       = {''Dermatology'', ''Vitiligo'', ''Immunology''}"
    by (simp only: fixture_fields) simp
  with fixture_statistics lab cnt 01 12 show ?thesis by blast
qed

text \<open>
  Claim C3 as stated: every non-empty record set whose average of citations per
  publication is 0 makes \<open>calculate_statistics\<close> fail with a division by zero.  It
  fails for a record set that loads, has the average 0 and a mean hIndex beyond the range
  of floats: the division of line 112 raises \<open>OverflowError\<close> before the average is
  ever used.
\<close>

theorem zero_average_overflow_counterexample:
  "load_data (JsonArray [item_huge]) = Inr (store_of [item_huge])
   \<and> kols (store_of [item_huge]) \<noteq> []
   \<and> avg_citations_per_pub (kols (store_of [item_huge])) = Inr 0
   \<and> calculate_statistics (store_of [item_huge]) \<noteq> Inl ZeroDivisionError"
proof -
  have "kols (store_of [item_huge]) \<noteq> []" by (simp add: huge_kols)
  then show ?thesis by (simp add: huge_loads huge_average huge_statistics)
qed


text \<open>
  Claim C3 as amended: for every non-empty record set whose average of citations per
  publication is 0, \<open>calculate_statistics\<close> returns no statistics; it fails with the
  division by that zero average (\<open>ZeroDivisionError\<close>), unless a division of two
  \<open>int\<close>s before it (the mean hIndex, or a record's citations by its
  publicationsCount) leaves the range of floats, and then it fails with
  \<open>OverflowError\<close>.
\<close>

theorem zero_average_raises:
  assumes "kols s \<noteq> []" and "avg_citations_per_pub (kols s) = Inr 0"
  shows "calculate_statistics s
           = Inl (if division_overflows s then OverflowError else ZeroDivisionError)
       \<and> (\<forall>stats. calculate_statistics s \<noteq> Inr stats)"
  using statistics_with_zero_average [OF assms] by simp


theorem zero_average_raises_witness:
  "kols (store_of [item_unpublished]) \<noteq> []
   \<and> avg_citations_per_pub (kols (store_of [item_unpublished])) = Inr 0
   \<and> \<not> division_overflows (store_of [item_unpublished])
   \<and> calculate_statistics (store_of [item_unpublished]) = Inl ZeroDivisionError"
proof -
  have ne: "kols (store_of [item_unpublished]) \<noteq> []" by (simp add: unpublished_kols(1))
  have avg: "avg_citations_per_pub (kols (store_of [item_unpublished])) = Inr 0"
    by (simp add: avg_citations_per_pub_def unpublished_kols)
  have no: "\<not> division_overflows (store_of [item_unpublished])"
    by (simp add: division_overflows_def unpublished_kols true_div_zero)
  from zero_average_raises [OF ne avg] no ne avg show ?thesis by simp
qed

text \<open>
  Claim C8: whenever \<open>calculate_statistics\<close> returns, \<open>topCountries\<close> holds the most frequent
  countries, at most 10 of them: its (country, count) pairs are the first 10 of the
  counted countries sorted by falling count, so it has 10 entries, or as many as there
  are distinct countries if these are fewer, and no country that is left out has more
  records than one that is listed.  Each entry counts the records of its country, and
  its percentage is the float \<open>(count / totalKOLs) * 100\<close>, within \<open>1 / 10 ^ 13\<close> of the
  exact quotient; the counts sum to at most the number of records, and the percentages,
  added as the real numbers they are, to at most \<open>100 + 1 / 10 ^ 13\<close>.
\<close>

theorem top_countries_at_most_ten:
  assumes "calculate_statistics s = Inr stats"
  shows "length (topCountries stats) \<le> 10
     \<and> length (topCountries stats) = min 10 (card (set (map country (kols s))))
     \<and> map (\<lambda>e. (cd_country e, cd_count e)) (topCountries stats)
         = take 10 (sorted_by_count_desc (Counter (map country (kols s))))
     \<and> (\<forall>e \<in> set (topCountries stats). \<forall>c \<in> set (map country (kols s)).
           c \<notin> set (map cd_country (topCountries stats))
           \<longrightarrow> count_list (map country (kols s)) c \<le> cd_count e)
     \<and> (\<forall>e \<in> set (topCountries stats).
           cd_count e = count_list (map country (kols s)) (cd_country e)
         \<and> cd_percentage e
             = round_to_double (round_to_double (of_nat (cd_count e) / of_nat (totalKOLs stats)) * 100)
         \<and> \<bar>cd_percentage e - of_nat (cd_count e) / of_nat (totalKOLs stats) * 100\<bar> \<le> 1 / 10 ^ 13)
     \<and> sum_list (map cd_count (topCountries stats)) \<le> totalKOLs stats
     \<and> sum_list (map cd_percentage (topCountries stats)) \<le> 100 + 1 / 10 ^ 13"
proof -
  let ?xs = "map country (kols s)"
  let ?n = "length (kols s)"
  let ?tc = "topCountries stats"
  let ?rk = "take 10 (sorted_by_count_desc (Counter ?xs))"
  note tot = statistics_total [OF assms]
  note ranking = top_countries_ranking(1) [OF assms]
  note rk = entries_of_ranking [OF ranking]
  have exact: "length ?tc = min 10 (card (set ?xs))"
    using arg_cong [OF ranking, of length] by (simp only: length_map ranked_length)
  have countries: "map cd_country ?tc = map fst ?rk"
    using arg_cong [OF ranking, of "map fst"] by (simp add: comp_def)
  have most: "count_list ?xs c \<le> cd_count e"
    if e: "e \<in> set ?tc" and c: "c \<in> set ?xs" and out: "c \<notin> set (map cd_country ?tc)" for e c
  proof -
    from e have "(cd_country e, cd_count e) \<in> set (map (\<lambda>e. (cd_country e, cd_count e)) ?tc)"
      by (simp only: set_map) (rule imageI)
    then have "(cd_country e, cd_count e) \<in> set ?rk" by (simp only: ranking)
    moreover from out have "c \<notin> set (map fst ?rk)" unfolding countries .
    ultimately show ?thesis using c by (intro ranked_most_frequent)
  qed
  have pct: "\<forall>e \<in> set ?tc. cd_percentage e
      = round_to_double (round_to_double (of_nat (cd_count e) / of_nat ?n) * 100)"
  proof
    fix e
    assume "e \<in> set ?tc"
    with top_countries_ranking(2) [OF assms]
    have "percentage_of (cd_count e) ?n = Inr (Finite (cd_percentage e))" by (rule bspec)
    then show "cd_percentage e
      = round_to_double (round_to_double (of_nat (cd_count e) / of_nat ?n) * 100)"
      by (rule percentage_of_Inr)
  qed
  have len: "length ?tc \<le> 10" by (rule rk(6))
  have sum: "sum_list (map cd_count ?tc) \<le> ?n" using rk(5) by simp
  have entry: "cd_count e = count_list ?xs (cd_country e)
         \<and> cd_percentage e = round_to_double (round_to_double (of_nat (cd_count e) / of_nat ?n) * 100)
         \<and> \<bar>cd_percentage e - of_nat (cd_count e) / of_nat ?n * 100\<bar> \<le> 1 / 10 ^ 13"
    if e: "e \<in> set ?tc" for e
  proof -
    from rk(3) e have "cd_count e = count_list ?xs (cd_country e) \<and> cd_country e \<in> set ?xs"
      by (rule bspec)
    then have c: "cd_count e = count_list ?xs (cd_country e)" by (rule conjunct1)
    then have "cd_count e \<le> ?n" using count_le_length [of ?xs "cd_country e"] by simp
    then have x: "0 \<le> (of_nat (cd_count e) / of_nat ?n :: rat)" "(of_nat (cd_count e) / of_nat ?n :: rat) \<le> 1"
      using tot(2) by (simp_all add: divide_le_eq_1)
    from pct e have p: "cd_percentage e
        = round_to_double (round_to_double (of_nat (cd_count e) / of_nat ?n) * 100)" by (rule bspec)
    have "\<bar>cd_percentage e - of_nat (cd_count e) / of_nat ?n * 100\<bar> \<le> 1 / 10 ^ 13"
      unfolding p by (rule percentage_close [OF x])
    with c p show ?thesis by (intro conjI)
  qed
  define B :: rat where "B = 201 / 2 ^ 1075"
  have "sum_list (map cd_percentage ?tc) \<le> 100 * (1 + 1 / 2 ^ 53)\<^sup>2 + B * of_nat (length ?tc)"
    unfolding B_def using pct tot(2) sum by (rule percentages_sum_upper)
  also have "B * of_nat (length ?tc) \<le> B * 10"
    using len by (intro mult_left_mono) (simp_all add: B_def)
  also have "100 * (1 + 1 / 2 ^ 53)\<^sup>2 + B * 10 \<le> 100 + 1 / 10 ^ 13"
    using error_constants(1) by (simp add: B_def)
  finally have total: "sum_list (map cd_percentage ?tc) \<le> 100 + 1 / 10 ^ 13" by simp
  show ?thesis
    unfolding tot(1)
  proof (intro conjI ballI impI)
    show "length ?tc \<le> 10" by (rule len)
    show "length ?tc = min 10 (card (set ?xs))" by (rule exact)
    show "map (\<lambda>e. (cd_country e, cd_count e)) ?tc = ?rk" by (rule ranking)
    show "sum_list (map cd_count ?tc) \<le> ?n" by (rule sum)
    show "sum_list (map cd_percentage ?tc) \<le> 100 + 1 / 10 ^ 13" by (rule total)
  next
    fix e c
    assume "e \<in> set ?tc" "c \<in> set ?xs" "c \<notin> set (map cd_country ?tc)"
    then show "count_list ?xs c \<le> cd_count e" by (rule most)
  next
    fix e assume e: "e \<in> set ?tc"
    from entry [OF e] show "cd_count e = count_list ?xs (cd_country e)" by (rule conjunct1)
    from entry [OF e] show "cd_percentage e
        = round_to_double (round_to_double (of_nat (cd_count e) / of_nat ?n) * 100)" by blast
    from entry [OF e] show "\<bar>cd_percentage e - of_nat (cd_count e) / of_nat ?n * 100\<bar> \<le> 1 / 10 ^ 13"
      by blast
  qed
qed

text \<open>
  On the panel, eleven countries compete for the ten places: the country met last, with
  six records, comes first, and the tenth of the countries with one record is cut.
\<close>

theorem top_countries_at_most_ten_witness:
  "calculate_statistics panel = Inr panel_stats
   \<and> card (set (map country (kols panel))) = 11
   \<and> length (topCountries panel_stats) = 10
   \<and> map (\<lambda>e. (cd_country e, cd_count e)) (topCountries panel_stats)
       = [(''Kenya'', 6), (''Argentina'', 1), (''Belgium'', 1), (''Canada'', 1), (''Denmark'', 1),
          (''Egypt'', 1), (''Finland'', 1), (''Greece'', 1), (''Hungary'', 1), (''India'', 1)]
   \<and> ''Japan'' \<in> set (map country (kols panel))
   \<and> ''Japan'' \<notin> set (map cd_country (topCountries panel_stats))
   \<and> sum_list (map cd_count (topCountries panel_stats)) = 15
   \<and> totalKOLs panel_stats = 16
   \<and> sum_list (map cd_percentage (topCountries panel_stats)) = 375 / 4
   \<and> sum_list (map cd_percentage (topCountries panel_stats)) \<le> 100 + 1 / 10 ^ 13"
proof -
  note r = top_countries_at_most_ten [OF panel_statistics]
  from r have len: "length (topCountries panel_stats) = min 10 (card (set (map country (kols panel))))"
    by (elim conjE)
  from r have rk: "map (\<lambda>e. (cd_country e, cd_count e)) (topCountries panel_stats)
      = take 10 (sorted_by_count_desc (Counter (map country (kols panel))))"
    by (elim conjE)
  from r have le: "sum_list (map cd_percentage (topCountries panel_stats)) \<le> 100 + 1 / 10 ^ 13"
    by (elim conjE)
  have card: "card (set (map country (kols panel))) = 11"
    by (simp only: length_Counter [symmetric] panel_counter) (simp only: list.size)
  have ten: "length (topCountries panel_stats) = 10" unfolding len card by simp
  have ranking: "map (\<lambda>e. (cd_country e, cd_count e)) (topCountries panel_stats)
       = [(''Kenya'', 6), (''Argentina'', 1), (''Belgium'', 1), (''Canada'', 1), (''Denmark'', 1),
          (''Egypt'', 1), (''Finland'', 1), (''Greece'', 1), (''Hungary'', 1), (''India'', 1)]"
    using rk panel_ranking by (simp only: most_common_def)
  have japan: "''Japan'' \<in> set (map country (kols panel))"
    "''Japan'' \<notin> set (map cd_country (topCountries panel_stats))"
    by (simp_all add: panel_countries panel_stats_def one_of_sixteen_def)
  have sums: "sum_list (map cd_count (topCountries panel_stats)) = 15"
    "totalKOLs panel_stats = 16"
    "sum_list (map cd_percentage (topCountries panel_stats)) = 375 / 4"
    by (simp_all add: panel_stats_def one_of_sixteen_def)
  from panel_statistics card ten ranking japan sums le show ?thesis by (intro conjI)
qed

text \<open>
  Claim C10 as stated: the percentages of \<open>expertiseDistribution\<close> sum to exactly 100.
  On the fixture each of three areas has one record of three; the float
  \<open>(1 / 3) * 100\<close> is a little below a third of 100, and three of them sum to
  \<open>100 - 2 powi (- 46)\<close>, in exact arithmetic as well as with Python's \<open>sum\<close>.
\<close>

theorem expertise_percentages_not_exact_counterexample:
  "calculate_statistics fixture = Inr fixture_stats
   \<and> sum_list (map ed_percentage (expertiseDistribution fixture_stats)) \<noteq> 100"
  using fixture_statistics by (simp add: fixture_stats_def)


text \<open>
  Claim C10 as amended: whenever \<open>calculate_statistics\<close> returns (for at most
  \<open>2 ^ 1000\<close> records), \<open>expertiseDistribution\<close> partitions the record set: every
  distinct expertiseArea has exactly one entry, which counts its records; the counts sum
  to exactly \<open>totalKOLs\<close>; each percentage is the float \<open>(count / totalKOLs) * 100\<close>;
  and the exact sum of the percentages, that is the sum of these floats as the real
  numbers they are, with no rounding of the additions, differs from 100 by at most
  \<open>1 / 10 ^ 13\<close>.  The program never adds the percentages up; a sum computed in floats
  rounds at every addition and is not bounded here.
\<close>

theorem expertise_distribution_partitions:
  assumes "calculate_statistics s = Inr stats" and "length (kols s) \<le> 2 ^ 1000"
  shows "distinct (map ed_expertiseArea (expertiseDistribution stats))
     \<and> set (map ed_expertiseArea (expertiseDistribution stats)) = set (map expertiseArea (kols s))
     \<and> (\<forall>e \<in> set (expertiseDistribution stats).
           ed_count e = count_list (map expertiseArea (kols s)) (ed_expertiseArea e)
         \<and> ed_percentage e
             = round_to_double (round_to_double (of_nat (ed_count e) / of_nat (totalKOLs stats)) * 100))
     \<and> sum_list (map ed_count (expertiseDistribution stats)) = totalKOLs stats
     \<and> \<bar>sum_list (map ed_percentage (expertiseDistribution stats)) - 100\<bar> \<le> 1 / 10 ^ 13"
proof -
  let ?xs = "map expertiseArea (kols s)"
  let ?n = "length (kols s)"
  let ?ed = "expertiseDistribution stats"
  note tot = statistics_total [OF assms(1)]
  note full = expertise_ranking(1) [OF assms(1)]
  have "map (\<lambda>e. (ed_expertiseArea e, ed_count e)) ?ed
      = take (length (sorted_by_count_desc (Counter ?xs))) (sorted_by_count_desc (Counter ?xs))"
    using full by simp
  note rk = entries_of_ranking [OF this]
  have "map ed_expertiseArea ?ed = map fst (map (\<lambda>e. (ed_expertiseArea e, ed_count e)) ?ed)"
    by (simp add: comp_def)
  then have keys: "set (map ed_expertiseArea ?ed) = set ?xs"
    by (simp only: full sorted_keys)
  have "map ed_count ?ed = map snd (map (\<lambda>e. (ed_expertiseArea e, ed_count e)) ?ed)"
    by (simp add: comp_def)
  then have sum: "sum_list (map ed_count ?ed) = ?n"
    by (simp only: full sorted_sum) simp
  have pct: "\<forall>e \<in> set ?ed. ed_percentage e
      = round_to_double (round_to_double (of_nat (ed_count e) / of_nat ?n) * 100)"
  proof
    fix e
    assume "e \<in> set ?ed"
    with expertise_ranking(2) [OF assms(1)]
    have "percentage_of (ed_count e) ?n = Inr (Finite (ed_percentage e))" by (rule bspec)
    then show "ed_percentage e
      = round_to_double (round_to_double (of_nat (ed_count e) / of_nat ?n) * 100)"
      by (rule percentage_of_Inr)
  qed
  have cnt: "ed_count e = count_list ?xs (ed_expertiseArea e) \<and> ed_expertiseArea e \<in> set ?xs"
    if "e \<in> set ?ed" for e
    using rk(3) that by (rule bspec)
  have "\<forall>e \<in> set ?ed. 0 < ed_count e"
  proof
    fix e
    assume "e \<in> set ?ed"
    from cnt [OF this] count_list_pos [of "ed_expertiseArea e" ?xs]
    show "0 < ed_count e" by simp
  qed
  then have "length ?ed \<le> sum_list (map ed_count ?ed)" by (rule length_le_sum_counts)
  with sum assms(2) have "length ?ed \<le> 2 ^ 1000" by simp
  then have "(of_nat (length ?ed) :: rat) \<le> of_nat (2 ^ 1000)" by (simp only: of_nat_le_iff)
  then have m: "(of_nat (length ?ed) :: rat) \<le> 2 ^ 1000" by simp
  define B :: rat where "B = 201 / 2 ^ 1075"
  define B' :: rat where "B' = 101 / 2 ^ 1075"
  define M :: rat where "M = 2 ^ 1000"
  have BM: "B * M = 201 / 2 ^ 75" "B' * M = 101 / 2 ^ 75" "0 \<le> B" "0 \<le> B'"
    by (simp_all add: B_def B'_def M_def)
  from m have m': "(of_nat (length ?ed) :: rat) \<le> M" by (simp add: M_def)
  have "sum_list (map ed_percentage ?ed) \<le> 100 * (1 + 1 / 2 ^ 53)\<^sup>2 + B * of_nat (length ?ed)"
    unfolding B_def using pct tot(2) by (rule percentages_sum_upper) (simp add: sum)
  also have "B * of_nat (length ?ed) \<le> B * M"
    using m' BM(3) by (rule mult_left_mono)
  finally have "sum_list (map ed_percentage ?ed) \<le> 100 * (1 + 1 / 2 ^ 53)\<^sup>2 + 201 / 2 ^ 75"
    by (simp add: BM(1))
  then have up: "sum_list (map ed_percentage ?ed) \<le> 100 + 1 / 10 ^ 13"
    using error_constants(2) by (rule order_trans)
  have "B' * of_nat (length ?ed) \<le> B' * M"
    using m' BM(4) by (rule mult_left_mono)
  moreover have "100 * (1 - 1 / 2 ^ 53)\<^sup>2 - B' * of_nat (length ?ed) \<le> sum_list (map ed_percentage ?ed)"
    unfolding B'_def using pct tot(2) sum by (rule percentages_sum_lower)
  ultimately have "100 * (1 - 1 / 2 ^ 53)\<^sup>2 - 101 / 2 ^ 75 \<le> sum_list (map ed_percentage ?ed)"
    by (simp add: BM(2))
  with error_constants(3) have lo: "100 - 1 / 10 ^ 13 \<le> sum_list (map ed_percentage ?ed)"
    by (rule order_trans)
  define eps :: rat where "eps = 1 / 10 ^ 13"
  from up lo have "\<bar>sum_list (map ed_percentage ?ed) - 100\<bar> \<le> eps"
    unfolding eps_def [symmetric] by (simp add: abs_le_iff)
  then have close: "\<bar>sum_list (map ed_percentage ?ed) - 100\<bar> \<le> 1 / 10 ^ 13"
    by (simp only: eps_def)
  show ?thesis
    unfolding tot(1)
  proof (intro conjI ballI)
    show "distinct (map ed_expertiseArea ?ed)" by (rule rk(4))
    show "set (map ed_expertiseArea ?ed) = set ?xs" by (rule keys)
    show "sum_list (map ed_count ?ed) = ?n" by (rule sum)
    show "\<bar>sum_list (map ed_percentage ?ed) - 100\<bar> \<le> 1 / 10 ^ 13" by (rule close)
  next
    fix e assume e: "e \<in> set ?ed"
    from cnt [OF e] show "ed_count e = count_list ?xs (ed_expertiseArea e)" by (rule conjunct1)
    from pct e show "ed_percentage e
        = round_to_double (round_to_double (of_nat (ed_count e) / of_nat ?n) * 100)" by (rule bspec)
  qed
qed


theorem expertise_distribution_partitions_witness:
  "calculate_statistics fixture = Inr fixture_stats
   \<and> length (kols fixture) \<le> 2 ^ 1000
   \<and> sum_list (map ed_count (expertiseDistribution fixture_stats)) = totalKOLs fixture_stats
   \<and> sum_list (map ed_percentage (expertiseDistribution fixture_stats)) = 7036874417766399 / 70368744177664
   \<and> \<bar>sum_list (map ed_percentage (expertiseDistribution fixture_stats)) - 100\<bar> \<le> 1 / 10 ^ 13"
proof -
  have len: "length (kols fixture) \<le> 2 ^ 1000" by (simp add: fixture_kols)
  note r = expertise_distribution_partitions [OF fixture_statistics len]
  from r have "\<bar>sum_list (map ed_percentage (expertiseDistribution fixture_stats)) - 100\<bar> \<le> 1 / 10 ^ 13"
    by (elim conjE)
  moreover from r have "sum_list (map ed_count (expertiseDistribution fixture_stats)) = totalKOLs fixture_stats"
    by (elim conjE)
  moreover have "sum_list (map ed_percentage (expertiseDistribution fixture_stats)) = 7036874417766399 / 70368744177664"
    by (simp add: fixture_stats_def)
  ultimately show ?thesis using fixture_statistics len by (intro conjI)
qed

end
